theory Spec2Isabelle
  imports Main "HOL-Library.Word"
begin

section \<open>Data model\<close>

text \<open>
  The scheduler of \<^verbatim>\<open>parta.c\<close> works on an array of process control blocks.

  A C \<^verbatim>\<open>int\<close> holding a burst, a wait, an amount, a quantum or an elapsed time is a
  32-bit word read as two's complement: comparisons are the signed ones (\<open><s\<close>,
  \<open>\<le>s\<close>), and \<open>+\<close> and \<open>-\<close> wrap around, which is what the usual targets do where
  the C standard leaves signed overflow undefined. The only additions that can wrap are
  \<^verbatim>\<open>wait += used\<close> and \<^verbatim>\<open>time += amount\<close>; the properties below that speak of sums
  say so, and give the mathematical sum when it fits a C \<^verbatim>\<open>int\<close>.

  Array indices and lengths (\<^verbatim>\<open>plen\<close>, \<^verbatim>\<open>current\<close>, loop counters) are mathematical
  integers: the code only ever computes with them between \<open>-1\<close> and \<^verbatim>\<open>plen\<close>, where
  no C \<^verbatim>\<open>int\<close> overflows.

  A pointer to the array is \<open>None\<close> when it is \<^verbatim>\<open>NULL\<close> and \<open>Some a\<close> when it points
  to the cells \<open>a\<close>; a call with a table of \<^verbatim>\<open>plen\<close> entries has \<open>plen = int (length a)\<close>.
\<close>

type_synonym c_int = "32 word"

text \<open>
  Modelled from the spec: the declaration of \<^verbatim>\<open>struct pcb\<close> is in \<^verbatim>\<open>parta.h\<close>, which
  is not among the sources. The specification's data model gives a PCB three integer
  fields, and they are the three \<^verbatim>\<open>int\<close> fields that \<^verbatim>\<open>parta.c\<close> reads and writes.
\<close>

record pcb =
  pid :: c_int
  burst_left :: c_int
  wait :: c_int

text \<open>C's \<^verbatim>\<open>%\<close> on \<^verbatim>\<open>int\<close>: the remainder of the division that truncates towards zero.\<close>

definition c_rem :: "int \<Rightarrow> int \<Rightarrow> int" where
  "c_rem a b = sgn a * (\<bar>a\<bar> mod \<bar>b\<bar>)"

section \<open>Construction: \<^verbatim>\<open>init_procs\<close>\<close>

text \<open>
  The loop of \<^verbatim>\<open>init_procs\<close> writes the three fields of cell \<open>i\<close> for \<open>i = 0, \<dots>, blen - 1\<close>.
\<close>

function init_procs_loop :: "c_int list \<Rightarrow> int \<Rightarrow> pcb list \<Rightarrow> int \<Rightarrow> pcb list" where
  "init_procs_loop bursts blen procs i =
     (if i < blen
      then init_procs_loop bursts blen
             (procs[nat i := \<lparr>pid = word_of_int i, burst_left = bursts ! nat i, wait = 0\<rparr>])
             (i + 1)
      else procs)"
  by pat_completeness auto
termination
  by (relation "measure (\<lambda>(bursts, blen, procs, i). nat (blen - i))") auto

declare init_procs_loop.simps [simp del]

text \<open>
  \<^verbatim>\<open>init_procs\<close> returns \<^verbatim>\<open>NULL\<close> when \<^verbatim>\<open>blen <= 0\<close> or \<^verbatim>\<open>bursts\<close> is \<^verbatim>\<open>NULL\<close>.
  The block of \<^verbatim>\<open>blen\<close> cells that \<^verbatim>\<open>malloc\<close> hands out is taken as zero-filled here; the
  loop overwrites every cell of it (lemma \<open>init_procs_loop_nth\<close> below holds for any
  initial contents). Allocation is assumed to succeed.
\<close>

definition init_procs :: "c_int list option \<Rightarrow> int \<Rightarrow> pcb list option" where
  "init_procs bursts blen =
     (if blen \<le> 0 then None
      else case bursts of
        None \<Rightarrow> None
      | Some bs \<Rightarrow>
          Some (init_procs_loop bs blen
                  (replicate (nat blen) \<lparr>pid = 0, burst_left = 0, wait = 0\<rparr>) 0))"

section \<open>Advancing time: \<^verbatim>\<open>run_proc\<close>\<close>

text \<open>
  The loop at the end of \<^verbatim>\<open>run_proc\<close>: every cell other than \<open>current\<close> whose
  \<^verbatim>\<open>burst_left\<close> is positive gets \<open>used\<close> added to its \<^verbatim>\<open>wait\<close>.
\<close>

function run_proc_loop :: "pcb list \<Rightarrow> int \<Rightarrow> int \<Rightarrow> c_int \<Rightarrow> int \<Rightarrow> pcb list" where
  "run_proc_loop procs plen current used i =
     (if i < plen then
        (if i = current then run_proc_loop procs plen current used (i + 1)
         else if 0 <s burst_left (procs ! nat i)
           then run_proc_loop
                  (procs[nat i := (procs ! nat i)\<lparr>wait := wait (procs ! nat i) + used\<rparr>])
                  plen current used (i + 1)
           else run_proc_loop procs plen current used (i + 1))
      else procs)"
  by pat_completeness auto
termination
  by (relation "measure (\<lambda>(procs, plen, current, used, i). nat (plen - i))") auto

declare run_proc_loop.simps [simp del]

text \<open>
  \<^verbatim>\<open>run_proc\<close> on a non-\<^verbatim>\<open>NULL\<close> array: the guards on \<^verbatim>\<open>plen\<close>, \<^verbatim>\<open>current\<close> and
  \<^verbatim>\<open>amount\<close>, the guard on a finished process, the decrement with its clamp at 0, and
  the loop over the other cells.
\<close>

definition run_proc_mem :: "pcb list \<Rightarrow> int \<Rightarrow> int \<Rightarrow> c_int \<Rightarrow> pcb list" where
  "run_proc_mem procs plen current amount =
     (if plen \<le> 0 \<or> current < 0 \<or> current \<ge> plen \<or> amount \<le>s 0 then procs
      else
        let remaining = burst_left (procs ! nat current) in
        if remaining \<le>s 0 then procs
        else
          let used = (if remaining <s amount then remaining else amount);
              procs1 = procs[nat current :=
                         (procs ! nat current)\<lparr>burst_left := burst_left (procs ! nat current) - used\<rparr>];
              procs2 = (if burst_left (procs1 ! nat current) <s 0
                        then procs1[nat current := (procs1 ! nat current)\<lparr>burst_left := 0\<rparr>]
                        else procs1)
          in run_proc_loop procs2 plen current used 0)"

text \<open>\<^verbatim>\<open>run_proc\<close> itself: nothing happens through a \<^verbatim>\<open>NULL\<close> pointer.\<close>

definition run_proc :: "pcb list option \<Rightarrow> int \<Rightarrow> int \<Rightarrow> c_int \<Rightarrow> pcb list option" where
  "run_proc procs plen current amount =
     (case procs of
        None \<Rightarrow> None
      | Some a \<Rightarrow> Some (run_proc_mem a plen current amount))"

section \<open>First come, first served: \<^verbatim>\<open>fcfs_run\<close>\<close>

function fcfs_run_loop :: "pcb list \<Rightarrow> int \<Rightarrow> c_int \<Rightarrow> int \<Rightarrow> pcb list \<times> c_int" where
  "fcfs_run_loop procs plen time i =
     (if i < plen then
        (if burst_left (procs ! nat i) \<le>s 0 then fcfs_run_loop procs plen time (i + 1)
         else
           let amount = burst_left (procs ! nat i) in
           fcfs_run_loop (run_proc_mem procs plen i amount) plen (time + amount) (i + 1))
      else (procs, time))"
  by pat_completeness auto
termination
  by (relation "measure (\<lambda>(procs, plen, time, i). nat (plen - i))") auto

declare fcfs_run_loop.simps [simp del]

text \<open>The result is the array after the run together with the returned time.\<close>

definition fcfs_run :: "pcb list option \<Rightarrow> int \<Rightarrow> pcb list option \<times> c_int" where
  "fcfs_run procs plen =
     (case procs of
        None \<Rightarrow> (None, 0)
      | Some a \<Rightarrow>
          if plen \<le> 0 then (Some a, 0)
          else let (a', t) = fcfs_run_loop a plen 0 0 in (Some a', t))"

section \<open>Round robin: \<^verbatim>\<open>rr_next\<close> and \<^verbatim>\<open>rr_run\<close>\<close>

text \<open>The first loop of \<^verbatim>\<open>rr_next\<close>: is any \<^verbatim>\<open>burst_left\<close> positive?\<close>

function rr_next_any :: "pcb list \<Rightarrow> int \<Rightarrow> int \<Rightarrow> bool" where
  "rr_next_any procs plen i =
     (if i < plen then
        (if 0 <s burst_left (procs ! nat i) then True
         else rr_next_any procs plen (i + 1))
      else False)"
  by pat_completeness auto
termination
  by (relation "measure (\<lambda>(procs, plen, i). nat (plen - i))") auto

declare rr_next_any.simps [simp del]

text \<open>
  The loop for an invalid \<^verbatim>\<open>current\<close> and the safety fallback at the end of \<^verbatim>\<open>rr_next\<close>
  are the same code: return the first index from \<open>i\<close> on with a positive \<^verbatim>\<open>burst_left\<close>,
  and \<open>-1\<close> when the loop ends without one.
\<close>

function rr_next_first :: "pcb list \<Rightarrow> int \<Rightarrow> int \<Rightarrow> int" where
  "rr_next_first procs plen i =
     (if i < plen then
        (if 0 <s burst_left (procs ! nat i) then i
         else rr_next_first procs plen (i + 1))
      else - 1)"
  by pat_completeness auto
termination
  by (relation "measure (\<lambda>(procs, plen, i). nat (plen - i))") auto

declare rr_next_first.simps [simp del]

text \<open>
  The \<^verbatim>\<open>while (i != current)\<close> loop with the code that follows it. Taken by itself the
  loop need not end (an \<open>i\<close> that never meets \<open>current\<close>), so its result is an option
  and \<open>None\<close> stands for a loop that runs forever.
\<close>

partial_function (option) rr_next_scan :: "int \<Rightarrow> pcb list \<Rightarrow> int \<Rightarrow> int \<Rightarrow> int option" where
  "rr_next_scan current procs plen i =
     (if i \<noteq> current then
        (if 0 <s burst_left (procs ! nat i) then Some i
         else rr_next_scan current procs plen (c_rem (i + 1) plen))
      else if 0 <s burst_left (procs ! nat current) then Some current
      else Some (rr_next_first procs plen 0))"

declare rr_next_scan.simps [code]

definition rr_next :: "int \<Rightarrow> pcb list option \<Rightarrow> int \<Rightarrow> int option" where
  "rr_next current procs plen =
     (case procs of
        None \<Rightarrow> Some (- 1)
      | Some a \<Rightarrow>
          if plen \<le> 0 then Some (- 1)
          else if \<not> rr_next_any a plen 0 then Some (- 1)
          else if current < 0 \<or> current \<ge> plen then Some (rr_next_first a plen 0)
          else rr_next_scan current a plen (c_rem (current + 1) plen))"

text \<open>
  The \<^verbatim>\<open>while (1)\<close> loop of \<^verbatim>\<open>rr_run\<close>; \<open>current\<close> is the index returned by the
  previous call of \<^verbatim>\<open>rr_next\<close>. \<open>None\<close> again stands for a loop that never ends.
\<close>

partial_function (option) rr_run_loop ::
  "pcb list \<Rightarrow> int \<Rightarrow> c_int \<Rightarrow> c_int \<Rightarrow> int \<Rightarrow> (pcb list \<times> c_int) option" where
  "rr_run_loop procs plen quantum time current =
     (case rr_next current (Some procs) plen of
        None \<Rightarrow> None
      | Some c \<Rightarrow>
          if c = - 1 then Some (procs, time)
          else if burst_left (procs ! nat c) \<le>s 0
            then rr_run_loop procs plen quantum time c
            else rr_run_loop
                   (run_proc_mem procs plen c
                      (if burst_left (procs ! nat c) <s quantum
                       then burst_left (procs ! nat c) else quantum))
                   plen quantum
                   (time + (if burst_left (procs ! nat c) <s quantum
                            then burst_left (procs ! nat c) else quantum))
                   c)"

declare rr_run_loop.simps [code]

definition rr_run :: "pcb list option \<Rightarrow> int \<Rightarrow> c_int \<Rightarrow> (pcb list option \<times> c_int) option" where
  "rr_run procs plen quantum =
     (case procs of
        None \<Rightarrow> Some (None, 0)
      | Some a \<Rightarrow>
          if plen \<le> 0 \<or> quantum \<le>s 0 then Some (Some a, 0)
          else (case rr_run_loop a plen quantum 0 (- 1) of
                  None \<Rightarrow> None
                | Some (a', t) \<Rightarrow> Some (Some a', t)))"

section \<open>Notions used to state the properties\<close>

text \<open>
  The CPU time a process with burst \<open>b\<close> consumes: \<open>b\<close> itself when it is positive, and
  nothing otherwise (both schedulers skip a process whose \<^verbatim>\<open>burst_left\<close> is \<open>\<le> 0\<close>).
\<close>

definition pos_burst :: "c_int \<Rightarrow> c_int" where
  "pos_burst b = (if 0 <s b then b else 0)"

text \<open>
  The state of cell \<open>k\<close> once the loop of \<^verbatim>\<open>fcfs_run\<close>, started at index \<open>i\<close> on the table
  \<open>a\<close>, has ended: a positive \<^verbatim>\<open>burst_left\<close> has become 0, and a process with a positive
  burst has waited for the positive bursts at the indices from \<open>i\<close> up to \<open>k\<close>.
\<close>

definition fcfs_final :: "pcb list \<Rightarrow> nat \<Rightarrow> nat \<Rightarrow> pcb" where
  "fcfs_final a i k =
     (a ! k)\<lparr>burst_left := (if 0 <s burst_left (a ! k) then 0 else burst_left (a ! k)),
             wait := wait (a ! k) +
               (if 0 <s burst_left (a ! k)
                then (\<Sum>j = i..<k. pos_burst (burst_left (a ! j))) else 0)\<rparr>"

text \<open>The total remaining burst of a table, as a mathematical integer.\<close>

definition remaining_total :: "pcb list \<Rightarrow> int" where
  "remaining_total a = (\<Sum>p\<leftarrow>a. max 0 (sint (burst_left p)))"

text \<open>
  The number of steps forward, wrapping modulo \<open>plen\<close>, that lead from index
  \<open>previous + 1\<close> to index \<open>j\<close>.
\<close>

definition cyc_dist :: "int \<Rightarrow> int \<Rightarrow> int \<Rightarrow> int" where
  "cyc_dist plen previous j = (j - (previous + 1)) mod plen"

section \<open>Example inputs and tables\<close>

text \<open>The burst sequence of the scenarios of the specification.\<close>

definition bursts_5_3_8 :: "c_int list" where
  "bursts_5_3_8 = [5, 3, 8]"

text \<open>Two processes with bursts 5 and 3; the second has already waited 7.\<close>

definition table_5_3 :: "pcb list" where
  "table_5_3 = [\<lparr>pid = 0, burst_left = 5, wait = 0\<rparr>, \<lparr>pid = 1, burst_left = 3, wait = 7\<rparr>]"

text \<open>Four processes of which the second and the fourth still have work to do.\<close>

definition table_rr :: "pcb list" where
  "table_rr = [\<lparr>pid = 0, burst_left = 0, wait = 0\<rparr>, \<lparr>pid = 1, burst_left = 3, wait = 0\<rparr>,
               \<lparr>pid = 2, burst_left = 0, wait = 0\<rparr>, \<lparr>pid = 3, burst_left = 2, wait = 0\<rparr>]"

text \<open>Two processes, only the second of which still has work to do.\<close>

definition table_one :: "pcb list" where
  "table_one = [\<lparr>pid = 0, burst_left = 0, wait = 0\<rparr>, \<lparr>pid = 1, burst_left = 3, wait = 0\<rparr>]"

text \<open>Three processes, the second of which was given the burst \<open>-8\<close>.\<close>

definition table_mixed :: "pcb list" where
  "table_mixed = [\<lparr>pid = 0, burst_left = 5, wait = 0\<rparr>, \<lparr>pid = 1, burst_left = - 8, wait = 0\<rparr>,
                  \<lparr>pid = 2, burst_left = 2, wait = 0\<rparr>]"

text \<open>A single process whose burst was given as \<open>-1\<close>.\<close>

definition table_neg :: "pcb list" where
  "table_neg = [\<lparr>pid = 0, burst_left = - 1, wait = 0\<rparr>]"


section \<open>Word arithmetic and sums over a table\<close>

lemma sint_sub_no_wrap:
  fixes r u :: c_int
  assumes "0 <s u" "u \<le>s r"
  shows "sint (r - u) = sint r - sint u"
proof -
  have a: "0 < sint u" "sint u \<le> sint r"
    using assms by (simp_all add: word_sless_alt word_sle_eq)
  have b: "sint r < 2 ^ 31"
    using sint_lt [of r] by simp
  have "sint (r - u) = signed_take_bit 31 (sint r - sint u)"
    by (simp add: sint_word_ariths)
  also have "\<dots> = sint r - sint u"
    using a b by (intro signed_take_bit_int_eq_self) auto
  finally show ?thesis .
qed

lemma sum_list_map_nth:
  fixes f :: "'a \<Rightarrow> 'b::comm_monoid_add"
  shows "sum_list (map f a) = (\<Sum>k<length a. f (a ! k))"
  by (simp add: sum_list_sum_nth atLeast0LessThan)

lemma sum_list_map_change_one:
  fixes f :: "'a \<Rightarrow> 'b::ab_group_add"
  assumes "c < length a" "length a' = length a"
    and "\<And>k. k < length a \<Longrightarrow> k \<noteq> c \<Longrightarrow> f (a' ! k) = f (a ! k)"
  shows "sum_list (map f a') = sum_list (map f a) - f (a ! c) + f (a' ! c)"
proof -
  let ?S = "{..<length a} - {c}"
  have fin: "finite {..<length a}" and mem: "c \<in> {..<length a}"
    using assms(1) by simp_all
  have same: "(\<Sum>k\<in>?S. f (a' ! k)) = (\<Sum>k\<in>?S. f (a ! k))"
    by (rule sum.cong) (use assms(3) in auto)
  have "sum_list (map f a') = f (a' ! c) + (\<Sum>k\<in>?S. f (a' ! k))"
    unfolding sum_list_map_nth assms(2) by (rule sum.remove [OF fin mem])
  moreover have "sum_list (map f a) = f (a ! c) + (\<Sum>k\<in>?S. f (a ! k))"
    unfolding sum_list_map_nth by (rule sum.remove [OF fin mem])
  ultimately show ?thesis
    using same by simp
qed

section \<open>What \<^verbatim>\<open>run_proc\<close> computes\<close>

lemma run_proc_loop_length:
  "length (run_proc_loop procs plen current used i) = length procs"
  by (induction procs plen current used i rule: run_proc_loop.induct)
     (subst run_proc_loop.simps, simp)

lemma run_proc_loop_nth:
  assumes "0 \<le> i" "plen \<le> int (length procs)" "k < length procs"
  shows "run_proc_loop procs plen current used i ! k =
           (if i \<le> int k \<and> int k < plen \<and> int k \<noteq> current \<and> 0 <s burst_left (procs ! k)
            then (procs ! k)\<lparr>wait := wait (procs ! k) + used\<rparr>
            else procs ! k)"
  using assms
proof (induction procs plen current used i rule: run_proc_loop.induct)
  case (1 procs plen current used i)
  show ?case
  proof (cases "i < plen")
    case False
    then show ?thesis by (subst run_proc_loop.simps) auto
  next
    case True
    note lt = True
    show ?thesis
    proof (cases "i = current")
      case True
      with lt 1 show ?thesis
        by (subst run_proc_loop.simps) auto
    next
      case False
      note ne = False
      show ?thesis
      proof (cases "0 <s burst_left (procs ! nat i)")
        case True
        have "nat i < length procs" using lt 1 by simp
        with True lt ne 1 show ?thesis
          by (subst run_proc_loop.simps) (auto simp: nth_list_update nat_eq_iff)
      next
        case False
        show ?thesis
        proof (cases "i = int k")
          case True
          with False lt ne 1 show ?thesis
            by (subst run_proc_loop.simps) auto
        next
          case neq: False
          then have "i + 1 \<le> int k \<longleftrightarrow> i \<le> int k"
            by arith
          with False lt ne 1 show ?thesis
            by (subst run_proc_loop.simps) auto
        qed
      qed
    qed
  qed
qed

lemma run_proc_mem_noop:
  "plen \<le> 0 \<or> current < 0 \<or> current \<ge> plen \<or> amount \<le>s 0 \<Longrightarrow>
     run_proc_mem procs plen current amount = procs"
  by (simp add: run_proc_mem_def)

lemma run_proc_mem_finished:
  "burst_left (procs ! nat current) \<le>s 0 \<Longrightarrow> run_proc_mem procs plen current amount = procs"
  by (simp add: run_proc_mem_def)

lemma run_proc_mem_length:
  "length (run_proc_mem procs plen current amount) = length procs"
  by (simp add: run_proc_mem_def Let_def run_proc_loop_length)

lemma used_bounds:
  fixes r amount :: c_int
  assumes "0 <s r" "0 <s amount"
  shows "0 <s (if r <s amount then r else amount)"
    and "(if r <s amount then r else amount) \<le>s r"
    and "sint (if r <s amount then r else amount) = min (sint amount) (sint r)"
  using assms by (auto simp: word_sless_alt word_sle_eq)

lemma run_proc_mem_nth:
  assumes cur: "0 \<le> current" "current < plen" and len: "plen \<le> int (length procs)"
    and amt: "0 <s amount" and run: "0 <s burst_left (procs ! nat current)"
    and k: "k < length procs"
  shows "run_proc_mem procs plen current amount ! k =
           (if k = nat current
            then (procs ! k)\<lparr>burst_left := burst_left (procs ! k) -
                   (if burst_left (procs ! nat current) <s amount
                    then burst_left (procs ! nat current) else amount)\<rparr>
            else if int k < plen \<and> 0 <s burst_left (procs ! k)
            then (procs ! k)\<lparr>wait := wait (procs ! k) +
                   (if burst_left (procs ! nat current) <s amount
                    then burst_left (procs ! nat current) else amount)\<rparr>
            else procs ! k)"
proof -
  define r where "r = burst_left (procs ! nat current)"
  define used where "used = (if r <s amount then r else amount)"
  define procs1 where
    "procs1 = procs[nat current := (procs ! nat current)\<lparr>burst_left := r - used\<rparr>]"
  have c: "nat current < length procs"
    using cur len by simp
  have u: "0 <s used" "used \<le>s r"
    using used_bounds [of r amount] run amt by (simp_all add: r_def used_def)
  have "sint (r - used) = sint r - sint used"
    by (rule sint_sub_no_wrap [OF u])
  then have nonneg: "\<not> r - used <s 0"
    using u by (simp add: word_sless_alt word_sle_eq)
  have guards: "\<not> (plen \<le> 0 \<or> current < 0 \<or> current \<ge> plen \<or> amount \<le>s 0)"
    using cur amt by (auto simp: word_sless_alt word_sle_eq)
  have notfin: "\<not> r \<le>s 0"
    using run by (simp add: r_def word_sless_alt word_sle_eq)
  have eq: "run_proc_mem procs plen current amount = run_proc_loop procs1 plen current used 0"
    using guards notfin nonneg c
    by (simp add: run_proc_mem_def Let_def r_def [symmetric] used_def [symmetric] procs1_def)
  have len1: "plen \<le> int (length procs1)" and k1: "k < length procs1"
    using len k by (simp_all add: procs1_def)
  show ?thesis
    unfolding eq run_proc_loop_nth [OF order_refl len1 k1]
    using c k cur
    by (auto simp: procs1_def nth_list_update r_def used_def)
qed


lemma run_proc_valid_call:
  assumes "plen = int (length a)" and "0 \<le> current" and "current < plen"
    and "0 <s burst_left (a ! nat current)" and "0 <s amount"
  shows "\<exists>a' used.
           run_proc (Some a) plen current amount = Some a' \<and>
           sint used = min (sint amount) (sint (burst_left (a ! nat current))) \<and>
           length a' = length a \<and>
           burst_left (a' ! nat current) = burst_left (a ! nat current) - used \<and>
           sint (burst_left (a' ! nat current)) = sint (burst_left (a ! nat current)) - sint used \<and>
           0 \<le>s burst_left (a' ! nat current) \<and>
           wait (a' ! nat current) = wait (a ! nat current) \<and>
           (\<forall>k<length a. pid (a' ! k) = pid (a ! k)) \<and>
           (\<forall>k<length a. k \<noteq> nat current \<longrightarrow>
              burst_left (a' ! k) = burst_left (a ! k) \<and>
              wait (a' ! k) =
                (if 0 <s burst_left (a ! k) then wait (a ! k) + used else wait (a ! k)))"
proof -
  define r where "r = burst_left (a ! nat current)"
  define used where "used = (if r <s amount then r else amount)"
  define a' where "a' = run_proc_mem a plen current amount"
  have c: "nat current < length a"
    using assms by simp
  have len: "plen \<le> int (length a)"
    using assms by simp
  have run: "0 <s r"
    using assms by (simp add: r_def)
  have u: "0 <s used" "used \<le>s r" "sint used = min (sint amount) (sint r)"
    using used_bounds [OF run assms(5)] by (simp_all add: used_def)
  have nth: "a' ! k =
           (if k = nat current then (a ! k)\<lparr>burst_left := burst_left (a ! k) - used\<rparr>
            else if int k < plen \<and> 0 <s burst_left (a ! k)
            then (a ! k)\<lparr>wait := wait (a ! k) + used\<rparr>
            else a ! k)" if "k < length a" for k
    unfolding a'_def used_def r_def
    by (rule run_proc_mem_nth [OF assms(2,3) len assms(5,4) that])
  have sub: "sint (r - used) = sint r - sint used"
    by (rule sint_sub_no_wrap [OF u(1,2)])
  have 1: "run_proc (Some a) plen current amount = Some a'"
    by (simp add: run_proc_def a'_def)
  have 2: "length a' = length a"
    by (simp add: a'_def run_proc_mem_length)
  have 3: "burst_left (a' ! nat current) = r - used"
    using nth [OF c] by (simp add: r_def)
  have 4: "sint (burst_left (a' ! nat current)) = sint r - sint used"
    using sub by (simp add: 3)
  have 5: "0 \<le>s burst_left (a' ! nat current)"
    using 4 u by (simp add: word_sle_eq word_sless_alt)
  have 6: "wait (a' ! nat current) = wait (a ! nat current)"
    using nth [OF c] by simp
  have 7: "\<forall>k<length a. pid (a' ! k) = pid (a ! k)"
    using nth by simp
  have 8: "\<forall>k<length a. k \<noteq> nat current \<longrightarrow>
              burst_left (a' ! k) = burst_left (a ! k) \<and>
              wait (a' ! k) =
                (if 0 <s burst_left (a ! k) then wait (a ! k) + used else wait (a ! k))"
    using nth assms(1) by simp
  show ?thesis
    apply (rule exI [of _ a'])
    apply (rule exI [of _ used])
    unfolding r_def [symmetric]
    by (intro conjI 1 u(3) 2 3 4 5 6 7 8)
qed

section \<open>What \<^verbatim>\<open>init_procs\<close> and \<^verbatim>\<open>fcfs_run\<close> compute\<close>

lemma init_procs_loop_length:
  "length (init_procs_loop bursts blen procs i) = length procs"
  by (induction bursts blen procs i rule: init_procs_loop.induct)
     (subst init_procs_loop.simps, simp)

lemma init_procs_loop_nth:
  assumes "0 \<le> i" "blen \<le> int (length procs)" "k < length procs"
  shows "init_procs_loop bursts blen procs i ! k =
           (if i \<le> int k \<and> int k < blen
            then \<lparr>pid = word_of_int (int k), burst_left = bursts ! k, wait = 0\<rparr>
            else procs ! k)"
  using assms
proof (induction bursts blen procs i rule: init_procs_loop.induct)
  case (1 bursts blen procs i)
  show ?case
  proof (cases "i < blen")
    case False
    then have "\<not> (i \<le> int k \<and> int k < blen)"
      by arith
    with False show ?thesis
      by (subst init_procs_loop.simps) auto
  next
    case True
    have ni: "nat i < length procs"
      using True 1 by simp
    show ?thesis
    proof (cases "i = int k")
      case eq: True
      then show ?thesis
        using True 1 ni by (subst init_procs_loop.simps) simp
    next
      case neq: False
      then have "i + 1 \<le> int k \<longleftrightarrow> i \<le> int k" and "nat i \<noteq> k"
        using 1 by auto
      then show ?thesis
        using True 1 ni by (subst init_procs_loop.simps) simp
    qed
  qed
qed

lemma init_procs_fresh:
  assumes "bs \<noteq> []"
  shows "\<exists>a. init_procs (Some bs) (int (length bs)) = Some a \<and> length a = length bs \<and>
           (\<forall>k<length bs. a ! k = \<lparr>pid = word_of_int (int k), burst_left = bs ! k, wait = 0\<rparr>)"
  using assms
  by (simp add: init_procs_def init_procs_loop_length init_procs_loop_nth)

lemma fcfs_step_nth:
  assumes i: "0 \<le> i" "i < plen" and len: "plen \<le> int (length a)"
    and run: "0 <s burst_left (a ! nat i)" and k: "k < length a"
  shows "run_proc_mem a plen i (burst_left (a ! nat i)) ! k =
           (if k = nat i then (a ! k)\<lparr>burst_left := 0\<rparr>
            else if int k < plen \<and> 0 <s burst_left (a ! k)
            then (a ! k)\<lparr>wait := wait (a ! k) + burst_left (a ! nat i)\<rparr>
            else a ! k)"
  unfolding run_proc_mem_nth [OF i len run run k] by simp

lemma fcfs_run_loop_result:
  assumes "0 \<le> i" and "plen = int (length a)"
    and "\<forall>k<length a. int k < i \<longrightarrow> \<not> 0 <s burst_left (a ! k)"
  shows "length (fst (fcfs_run_loop a plen time i)) = length a \<and>
         (\<forall>k<length a. fst (fcfs_run_loop a plen time i) ! k = fcfs_final a (nat i) k) \<and>
         snd (fcfs_run_loop a plen time i) =
           time + (\<Sum>j = nat i..<length a. pos_burst (burst_left (a ! j)))"
  using assms
proof (induction a plen time i rule: fcfs_run_loop.induct)
  case (1 procs plen time i)
  note len = \<open>plen = int (length procs)\<close>
  note dn = \<open>\<forall>k<length procs. int k < i \<longrightarrow> \<not> 0 <s burst_left (procs ! k)\<close>
  show ?case
  proof (cases "i < plen")
    case False
    then have past: "length procs \<le> nat i"
      using len by simp
    have "fcfs_final procs (nat i) k = procs ! k" if "k < length procs" for k
    proof -
      have "\<not> 0 <s burst_left (procs ! k)"
        using dn that past by simp
      then show ?thesis
        by (simp add: fcfs_final_def)
    qed
    with False past show ?thesis
      by (subst (1 2 3) fcfs_run_loop.simps) simp
  next
    case True
    note lt = True
    have ni: "nat i < length procs" "nat (i + 1) = Suc (nat i)"
      using lt len \<open>0 \<le> i\<close> by simp_all
    have split_sum: "(\<Sum>j = nat i..<length procs. pos_burst (burst_left (procs ! j))) =
        pos_burst (burst_left (procs ! nat i)) +
        (\<Sum>j = Suc (nat i)..<length procs. pos_burst (burst_left (procs ! j)))"
      using ni by (simp add: sum.atLeast_Suc_lessThan)
    show ?thesis
    proof (cases "burst_left (procs ! nat i) \<le>s 0")
      case True
      then have npos: "\<not> 0 <s burst_left (procs ! nat i)"
        by (simp add: word_sle_eq word_sless_alt)
      have dn': "\<forall>k<length procs. int k < i + 1 \<longrightarrow> \<not> 0 <s burst_left (procs ! k)"
      proof (intro allI impI)
        fix k assume "k < length procs" "int k < i + 1"
        then have "int k < i \<or> k = nat i" by auto
        then show "\<not> 0 <s burst_left (procs ! k)"
          using dn npos \<open>k < length procs\<close> by auto
      qed
      have ih: "length (fst (fcfs_run_loop procs plen time (i + 1))) = length procs \<and>
         (\<forall>k<length procs. fst (fcfs_run_loop procs plen time (i + 1)) ! k = fcfs_final procs (nat (i + 1)) k) \<and>
         snd (fcfs_run_loop procs plen time (i + 1)) =
           time + (\<Sum>j = nat (i + 1)..<length procs. pos_burst (burst_left (procs ! j)))"
        using "1.IH"(1) [OF lt True _ len dn'] \<open>0 \<le> i\<close> by simp
      have eq: "fcfs_run_loop procs plen time i = fcfs_run_loop procs plen time (i + 1)"
        using lt True by (subst fcfs_run_loop.simps) simp
      have fin: "fcfs_final procs (Suc (nat i)) k = fcfs_final procs (nat i) k"
        if "k < length procs" for k
      proof (cases "nat i < k")
        case True
        then have "(\<Sum>j = nat i..<k. pos_burst (burst_left (procs ! j))) =
           pos_burst (burst_left (procs ! nat i)) +
           (\<Sum>j = Suc (nat i)..<k. pos_burst (burst_left (procs ! j)))"
          by (simp add: sum.atLeast_Suc_lessThan)
        then show ?thesis
          using npos by (simp add: fcfs_final_def pos_burst_def)
      next
        case False
        then show ?thesis
          by (simp add: fcfs_final_def)
      qed
      show ?thesis
        unfolding eq using ih fin split_sum npos
        by (simp add: ni pos_burst_def)
    next
      case False
      then have pos: "0 <s burst_left (procs ! nat i)"
        by (simp add: word_sle_eq word_sless_alt)
      define b where "b = burst_left (procs ! nat i)"
      define a1 where "a1 = run_proc_mem procs plen i b"
      have len1: "length a1 = length procs"
        by (simp add: a1_def run_proc_mem_length)
      have nth1: "a1 ! k =
           (if k = nat i then (procs ! k)\<lparr>burst_left := 0\<rparr>
            else if 0 <s burst_left (procs ! k)
            then (procs ! k)\<lparr>wait := wait (procs ! k) + b\<rparr>
            else procs ! k)" if "k < length procs" for k
        using fcfs_step_nth [OF \<open>0 \<le> i\<close> lt _ pos that] len that
        by (simp add: a1_def b_def)
      have dn1: "\<forall>k<length a1. int k < i + 1 \<longrightarrow> \<not> 0 <s burst_left (a1 ! k)"
      proof (intro allI impI)
        fix k assume k: "k < length a1" "int k < i + 1"
        then have "int k < i \<or> k = nat i" by auto
        then show "\<not> 0 <s burst_left (a1 ! k)"
          using dn k len1 nth1 [of k] by (auto simp: word_sless_alt)
      qed
      have bl1: "burst_left (a1 ! j) = burst_left (procs ! j)" if "j < length procs" "j \<noteq> nat i" for j
        using nth1 [OF that(1)] that(2) by simp
      have ih: "length (fst (fcfs_run_loop a1 plen (time + b) (i + 1))) = length a1 \<and>
         (\<forall>k<length a1. fst (fcfs_run_loop a1 plen (time + b) (i + 1)) ! k = fcfs_final a1 (nat (i + 1)) k) \<and>
         snd (fcfs_run_loop a1 plen (time + b) (i + 1)) =
           (time + b) + (\<Sum>j = nat (i + 1)..<length a1. pos_burst (burst_left (a1 ! j)))"
        using "1.IH"(2) [OF lt False refl] dn1 len len1 \<open>0 \<le> i\<close>
        unfolding a1_def b_def by simp
      have eq: "fcfs_run_loop procs plen time i = fcfs_run_loop a1 plen (time + b) (i + 1)"
        using lt False by (subst fcfs_run_loop.simps) (simp add: a1_def b_def Let_def)
      have sum_rest: "(\<Sum>j = Suc (nat i)..<m. pos_burst (burst_left (a1 ! j))) =
                      (\<Sum>j = Suc (nat i)..<m. pos_burst (burst_left (procs ! j)))"
        if "m \<le> length procs" for m
        by (rule sum.cong) (use that bl1 in auto)
      have fin: "fcfs_final a1 (Suc (nat i)) k = fcfs_final procs (nat i) k"
        if k: "k < length procs" for k
      proof (cases "k = nat i")
        case True
        then show ?thesis
          using nth1 [OF k] pos by (simp add: fcfs_final_def word_sless_alt)
      next
        case ne: False
        show ?thesis
        proof (cases "0 <s burst_left (procs ! k)")
          case True
          then have "\<not> int k < i"
            using dn k by blast
          then have gt: "nat i < k"
            using ne by linarith
          then have "(\<Sum>j = nat i..<k. pos_burst (burst_left (procs ! j))) =
             pos_burst (burst_left (procs ! nat i)) +
             (\<Sum>j = Suc (nat i)..<k. pos_burst (burst_left (procs ! j)))"
            by (simp add: sum.atLeast_Suc_lessThan)
          moreover have "pos_burst (burst_left (procs ! nat i)) = b"
            using pos by (simp add: pos_burst_def b_def)
          ultimately show ?thesis
            using nth1 [OF k] ne True sum_rest [of k] k
            by (simp add: fcfs_final_def add.assoc)
        next
          case False
          then show ?thesis
            using nth1 [OF k] ne by (simp add: fcfs_final_def)
        qed
      qed
      have "pos_burst (burst_left (procs ! nat i)) = b"
        using pos by (simp add: pos_burst_def b_def)
      then show ?thesis
        unfolding eq using ih fin split_sum sum_rest [of "length procs"] len1
        by (simp add: ni add.assoc)
    qed
  qed
qed

lemma fcfs_run_result:
  assumes "plen = int (length a)"
  shows "\<exists>a'. fcfs_run (Some a) plen =
                 (Some a', \<Sum>j = 0..<length a. pos_burst (burst_left (a ! j))) \<and>
              length a' = length a \<and> (\<forall>k<length a. a' ! k = fcfs_final a 0 k)"
proof (cases "plen \<le> 0")
  case True
  then have "a = []"
    using assms by simp
  then show ?thesis
    using True by (simp add: fcfs_run_def)
next
  case False
  have "length (fst (fcfs_run_loop a plen 0 0)) = length a \<and>
         (\<forall>k<length a. fst (fcfs_run_loop a plen 0 0) ! k = fcfs_final a (nat 0) k) \<and>
         snd (fcfs_run_loop a plen 0 0) =
           0 + (\<Sum>j = nat 0..<length a. pos_burst (burst_left (a ! j)))"
    by (rule fcfs_run_loop_result) (use assms in simp_all)
  then show ?thesis
    using False by (cases "fcfs_run_loop a plen 0 0") (simp add: fcfs_run_def)
qed

section \<open>What \<^verbatim>\<open>rr_next\<close> computes\<close>

lemma c_rem_nonneg: "0 \<le> a \<Longrightarrow> 0 < b \<Longrightarrow> c_rem a b = a mod b"
  by (cases "a = 0") (simp_all add: c_rem_def)

lemma cyc_dist_range: "0 < n \<Longrightarrow> 0 \<le> cyc_dist n c j \<and> cyc_dist n c j < n"
  by (simp add: cyc_dist_def)

lemma cyc_dist_inj:
  assumes "0 < n" "0 \<le> j" "j < n" "0 \<le> k" "k < n" "cyc_dist n c j = cyc_dist n c k"
  shows "j = k"
proof -
  have "(j - (c + 1)) mod n = (k - (c + 1)) mod n"
    using assms(6) by (simp add: cyc_dist_def)
  then have "n dvd (j - (c + 1)) - (k - (c + 1))"
    by (simp add: mod_eq_dvd_iff)
  then have d: "n dvd j - k"
    by simp
  have "\<bar>j - k\<bar> < n"
    using assms by arith
  with d show ?thesis
    using zdvd_not_zless [of "\<bar>j - k\<bar>" n] by (cases "j = k") auto
qed

lemma cyc_dist_previous: "0 < n \<Longrightarrow> cyc_dist n c c = n - 1"
proof -
  assume n: "0 < n"
  have "cyc_dist n c c = (- 1) mod n"
    by (simp add: cyc_dist_def)
  also have "\<dots> = n - 1"
    using n by (simp add: zmod_minus1)
  finally show ?thesis .
qed

lemma cyc_dist_start:
  assumes "0 < n"
  shows "cyc_dist n c ((c + 1) mod n) = 0"
proof -
  have "cyc_dist n c ((c + 1) mod n) = ((c + 1) - (c + 1)) mod n"
    unfolding cyc_dist_def by (rule mod_diff_left_eq)
  then show ?thesis by simp
qed

lemma cyc_dist_step:
  assumes n: "0 < n" and c: "0 \<le> c" "c < n" and i: "0 \<le> i" "i < n" "i \<noteq> c"
  shows "cyc_dist n c ((i + 1) mod n) = cyc_dist n c i + 1"
proof -
  have "cyc_dist n c i \<noteq> n - 1"
    using cyc_dist_inj [OF n i(1,2) c, of c] cyc_dist_previous [OF n, of c] i(3) by auto
  then have small: "cyc_dist n c i + 1 < n"
    using cyc_dist_range [OF n, of c i] by arith
  have "cyc_dist n c ((i + 1) mod n) = ((i + 1) - (c + 1)) mod n"
    unfolding cyc_dist_def by (rule mod_diff_left_eq)
  also have "\<dots> = ((i - (c + 1)) + 1) mod n"
    by (simp add: algebra_simps)
  also have "\<dots> = (cyc_dist n c i + 1) mod n"
    unfolding cyc_dist_def by (simp add: mod_add_left_eq)
  also have "\<dots> = cyc_dist n c i + 1"
    using small cyc_dist_range [OF n, of c i] by simp
  finally show ?thesis .
qed

lemma rr_next_any_iff:
  "rr_next_any a plen i \<longleftrightarrow> (\<exists>j. i \<le> j \<and> j < plen \<and> 0 <s burst_left (a ! nat j))"
proof (induction a plen i rule: rr_next_any.induct)
  case (1 procs plen i)
  show ?case
  proof (cases "i < plen")
    case False
    then show ?thesis
      by (subst rr_next_any.simps) auto
  next
    case True
    note lt = True
    show ?thesis
    proof (cases "0 <s burst_left (procs ! nat i)")
      case True
      with lt show ?thesis
        by (subst rr_next_any.simps) auto
    next
      case False
      have "(\<exists>j. i \<le> j \<and> j < plen \<and> 0 <s burst_left (procs ! nat j)) \<longleftrightarrow>
            (\<exists>j. i + 1 \<le> j \<and> j < plen \<and> 0 <s burst_left (procs ! nat j))"
      proof
        assume "\<exists>j. i \<le> j \<and> j < plen \<and> 0 <s burst_left (procs ! nat j)"
        then obtain j where j: "i \<le> j" "j < plen" "0 <s burst_left (procs ! nat j)"
          by blast
        with False have "j \<noteq> i" by auto
        with j show "\<exists>j. i + 1 \<le> j \<and> j < plen \<and> 0 <s burst_left (procs ! nat j)"
          by (intro exI [of _ j]) simp
      next
        assume "\<exists>j. i + 1 \<le> j \<and> j < plen \<and> 0 <s burst_left (procs ! nat j)"
        then obtain j where j: "i + 1 \<le> j" "j < plen" "0 <s burst_left (procs ! nat j)"
          by blast
        then show "\<exists>j. i \<le> j \<and> j < plen \<and> 0 <s burst_left (procs ! nat j)"
          by (intro exI [of _ j]) simp
      qed
      with False lt "1.IH" show ?thesis
        by (subst rr_next_any.simps) simp
    qed
  qed
qed

lemma rr_next_first_spec:
  assumes "0 \<le> i"
  shows "(rr_next_first a plen i = - 1 \<and>
            (\<forall>j. i \<le> j \<and> j < plen \<longrightarrow> \<not> 0 <s burst_left (a ! nat j))) \<or>
         (i \<le> rr_next_first a plen i \<and> rr_next_first a plen i < plen \<and>
            0 <s burst_left (a ! nat (rr_next_first a plen i)) \<and>
            (\<forall>j. i \<le> j \<and> j < rr_next_first a plen i \<longrightarrow> \<not> 0 <s burst_left (a ! nat j)))"
  using assms
proof (induction a plen i rule: rr_next_first.induct)
  case (1 procs plen i)
  show ?case
  proof (cases "i < plen")
    case False
    then show ?thesis
      by (subst (1 2 3 4 5) rr_next_first.simps) auto
  next
    case True
    note lt = True
    show ?thesis
    proof (cases "0 <s burst_left (procs ! nat i)")
      case True
      with lt have "rr_next_first procs plen i = i"
        by (subst rr_next_first.simps) simp
      with True lt show ?thesis
        by auto
    next
      case False
      with lt have eq: "rr_next_first procs plen i = rr_next_first procs plen (i + 1)"
        by (subst rr_next_first.simps) simp
      have skip: "\<not> 0 <s burst_left (procs ! nat j)"
        if "i \<le> j" "\<not> i + 1 \<le> j" for j
      proof -
        from that have "j = i" by arith
        then show ?thesis using False by simp
      qed
      from "1.IH" [OF lt False] \<open>0 \<le> i\<close>
      have "(rr_next_first procs plen (i + 1) = - 1 \<and>
            (\<forall>j. i + 1 \<le> j \<and> j < plen \<longrightarrow> \<not> 0 <s burst_left (procs ! nat j))) \<or>
         (i + 1 \<le> rr_next_first procs plen (i + 1) \<and> rr_next_first procs plen (i + 1) < plen \<and>
            0 <s burst_left (procs ! nat (rr_next_first procs plen (i + 1))) \<and>
            (\<forall>j. i + 1 \<le> j \<and> j < rr_next_first procs plen (i + 1) \<longrightarrow>
                 \<not> 0 <s burst_left (procs ! nat j)))"
        by simp
      then show ?thesis
        unfolding eq using skip by (elim disjE conjE) (metis add_increasing2 zero_less_one_class.zero_le_one | force)+
    qed
  qed
qed

lemma rr_next_scan_result:
  assumes n: "0 < n" and c: "0 \<le> c" "c < n" and i: "0 \<le> i" "i < n"
    and inv: "\<forall>j. 0 \<le> j \<and> j < n \<and> j \<noteq> c \<and> cyc_dist n c j < cyc_dist n c i
                \<longrightarrow> \<not> 0 <s burst_left (a ! nat j)"
  shows "\<exists>r. rr_next_scan c a n i = Some r \<and>
           (if \<exists>j. 0 \<le> j \<and> j < n \<and> j \<noteq> c \<and> 0 <s burst_left (a ! nat j)
            then 0 \<le> r \<and> r < n \<and> r \<noteq> c \<and> 0 <s burst_left (a ! nat r) \<and>
                 (\<forall>j. 0 \<le> j \<and> j < n \<and> j \<noteq> c \<and> 0 <s burst_left (a ! nat j)
                    \<longrightarrow> cyc_dist n c r \<le> cyc_dist n c j)
            else if 0 <s burst_left (a ! nat c) then r = c
            else r = rr_next_first a n 0)"
  using i inv
proof (induction "nat (n - 1 - cyc_dist n c i)" arbitrary: i rule: less_induct)
  case less
  note i = \<open>0 \<le> i\<close> \<open>i < n\<close>
  note inv = less.prems(3)
  show ?case
  proof (cases "i = c")
    case True
    have none: "\<not> (\<exists>j. 0 \<le> j \<and> j < n \<and> j \<noteq> c \<and> 0 <s burst_left (a ! nat j))"
    proof
      assume "\<exists>j. 0 \<le> j \<and> j < n \<and> j \<noteq> c \<and> 0 <s burst_left (a ! nat j)"
      then obtain j where j: "0 \<le> j" "j < n" "j \<noteq> c" "0 <s burst_left (a ! nat j)"
        by blast
      have "cyc_dist n c j \<noteq> n - 1"
        using cyc_dist_inj [OF n j(1,2) c, of c] cyc_dist_previous [OF n, of c] j(3) by auto
      then have "cyc_dist n c j < cyc_dist n c i"
        using cyc_dist_range [OF n, of c j] cyc_dist_previous [OF n, of c] True by simp
      with inv j show False by blast
    qed
    have eq: "rr_next_scan c a n i =
                Some (if 0 <s burst_left (a ! nat c) then c else rr_next_first a n 0)"
      using True by (subst rr_next_scan.simps) simp
    show ?thesis
      unfolding eq if_not_P [OF none] by simp
  next
    case False
    note ne = False
    show ?thesis
    proof (cases "0 <s burst_left (a ! nat i)")
      case True
      have "rr_next_scan c a n i = Some i"
        using ne True by (subst rr_next_scan.simps) simp
      moreover have "\<exists>j. 0 \<le> j \<and> j < n \<and> j \<noteq> c \<and> 0 <s burst_left (a ! nat j)"
        using i ne True by blast
      moreover have "\<forall>j. 0 \<le> j \<and> j < n \<and> j \<noteq> c \<and> 0 <s burst_left (a ! nat j)
                    \<longrightarrow> cyc_dist n c i \<le> cyc_dist n c j"
        using inv by (meson not_le)
      ultimately show ?thesis
        using i ne True by simp
    next
      case False
      define i' where "i' = (i + 1) mod n"
      have i': "0 \<le> i'" "i' < n"
        using n by (simp_all add: i'_def)
      have step: "cyc_dist n c i' = cyc_dist n c i + 1"
        unfolding i'_def by (rule cyc_dist_step [OF n c i ne])
      have "cyc_dist n c i \<noteq> n - 1"
        using cyc_dist_inj [OF n i c, of c] cyc_dist_previous [OF n, of c] ne by auto
      then have dec: "nat (n - 1 - cyc_dist n c i') < nat (n - 1 - cyc_dist n c i)"
        using step cyc_dist_range [OF n, of c i] by simp
      have inv': "\<forall>j. 0 \<le> j \<and> j < n \<and> j \<noteq> c \<and> cyc_dist n c j < cyc_dist n c i'
                \<longrightarrow> \<not> 0 <s burst_left (a ! nat j)"
      proof (intro allI impI)
        fix j assume j: "0 \<le> j \<and> j < n \<and> j \<noteq> c \<and> cyc_dist n c j < cyc_dist n c i'"
        then consider "cyc_dist n c j < cyc_dist n c i" | "cyc_dist n c j = cyc_dist n c i"
          using step by linarith
        then show "\<not> 0 <s burst_left (a ! nat j)"
        proof cases
          case 1
          with inv j show ?thesis by blast
        next
          case 2
          then have "j = i"
            using cyc_dist_inj [OF n _ _ i, of j c] j by simp
          with False show ?thesis by simp
        qed
      qed
      have eq: "rr_next_scan c a n i = rr_next_scan c a n i'"
        using ne False i n by (subst rr_next_scan.simps) (simp add: i'_def c_rem_nonneg)
      show ?thesis
        unfolding eq by (rule less.hyps [OF dec i' inv'])
    qed
  qed
qed

lemma rr_next_in_range:
  assumes n: "0 < n" and c: "0 \<le> c" "c < n"
    and any: "\<exists>j. 0 \<le> j \<and> j < n \<and> 0 <s burst_left (a ! nat j)"
  shows "\<exists>r. rr_next c (Some a) n = Some r \<and>
           (if \<exists>j. 0 \<le> j \<and> j < n \<and> j \<noteq> c \<and> 0 <s burst_left (a ! nat j)
            then 0 \<le> r \<and> r < n \<and> r \<noteq> c \<and> 0 <s burst_left (a ! nat r) \<and>
                 (\<forall>j. 0 \<le> j \<and> j < n \<and> j \<noteq> c \<and> 0 <s burst_left (a ! nat j)
                    \<longrightarrow> cyc_dist n c r \<le> cyc_dist n c j)
            else r = c \<and> 0 <s burst_left (a ! nat c))"
proof -
  define i where "i = (c + 1) mod n"
  have i: "0 \<le> i" "i < n"
    using n by (simp_all add: i_def)
  have "cyc_dist n c i = 0"
    unfolding i_def by (rule cyc_dist_start [OF n])
  then have inv: "\<forall>j. 0 \<le> j \<and> j < n \<and> j \<noteq> c \<and> cyc_dist n c j < cyc_dist n c i
                \<longrightarrow> \<not> 0 <s burst_left (a ! nat j)"
    using cyc_dist_range [OF n, of c] by (auto simp: not_less [symmetric])
  have eq: "rr_next c (Some a) n = rr_next_scan c a n i"
    using n c any by (simp add: rr_next_def rr_next_any_iff i_def c_rem_nonneg)
  have cur: "0 <s burst_left (a ! nat c)"
    if "\<not> (\<exists>j. 0 \<le> j \<and> j < n \<and> j \<noteq> c \<and> 0 <s burst_left (a ! nat j))"
    using any that by metis
  from rr_next_scan_result [OF n c i inv] obtain r where
    r: "rr_next_scan c a n i = Some r" and
    post: "(if \<exists>j. 0 \<le> j \<and> j < n \<and> j \<noteq> c \<and> 0 <s burst_left (a ! nat j)
            then 0 \<le> r \<and> r < n \<and> r \<noteq> c \<and> 0 <s burst_left (a ! nat r) \<and>
                 (\<forall>j. 0 \<le> j \<and> j < n \<and> j \<noteq> c \<and> 0 <s burst_left (a ! nat j)
                    \<longrightarrow> cyc_dist n c r \<le> cyc_dist n c j)
            else if 0 <s burst_left (a ! nat c) then r = c
            else r = rr_next_first a n 0)"
    by blast
  show ?thesis
    unfolding eq r using post cur
    by (cases "\<exists>j. 0 \<le> j \<and> j < n \<and> j \<noteq> c \<and> 0 <s burst_left (a ! nat j)") simp_all
qed

lemma rr_next_out_of_range:
  assumes n: "0 < n" and c: "c < 0 \<or> n \<le> c"
    and any: "\<exists>j. 0 \<le> j \<and> j < n \<and> 0 <s burst_left (a ! nat j)"
  shows "\<exists>r. rr_next c (Some a) n = Some r \<and> 0 \<le> r \<and> r < n \<and>
           0 <s burst_left (a ! nat r) \<and>
           (\<forall>j. 0 \<le> j \<and> j < r \<longrightarrow> \<not> 0 <s burst_left (a ! nat j))"
proof -
  have eq: "rr_next c (Some a) n = Some (rr_next_first a n 0)"
    using n c any by (auto simp: rr_next_def rr_next_any_iff)
  show ?thesis
    unfolding eq using rr_next_first_spec [of 0 a n] any by auto
qed

lemma rr_next_all_finished:
  assumes "\<not> (\<exists>j. 0 \<le> j \<and> j < n \<and> 0 <s burst_left (a ! nat j))"
  shows "rr_next c (Some a) n = Some (- 1)"
  using assms by (simp add: rr_next_def rr_next_any_iff)

lemma ex_int_index:
  "(\<exists>j. 0 \<le> j \<and> j < int m \<and> P (nat j)) \<longleftrightarrow> (\<exists>k<m. P k)"
proof
  assume "\<exists>j. 0 \<le> j \<and> j < int m \<and> P (nat j)"
  then obtain j where "0 \<le> j" "j < int m" "P (nat j)" by blast
  then have "nat j < m \<and> P (nat j)" by simp
  then show "\<exists>k<m. P k" by blast
next
  assume "\<exists>k<m. P k"
  then obtain k where "k < m" "P k" by blast
  then have "0 \<le> int k \<and> int k < int m \<and> P (nat (int k))" by simp
  then show "\<exists>j. 0 \<le> j \<and> j < int m \<and> P (nat j)" by blast
qed

lemma rr_next_returns:
  "\<exists>r. rr_next c (Some a) n = Some r \<and>
        (r = - 1 \<longleftrightarrow> \<not> (\<exists>j. 0 \<le> j \<and> j < n \<and> 0 <s burst_left (a ! nat j))) \<and>
        (r \<noteq> - 1 \<longrightarrow> 0 \<le> r \<and> r < n \<and> 0 <s burst_left (a ! nat r))"
proof (cases "\<exists>j. 0 \<le> j \<and> j < n \<and> 0 <s burst_left (a ! nat j)")
  case False
  then show ?thesis
    using rr_next_all_finished [of n a c] by simp
next
  case True
  then have n: "0 < n" by auto
  show ?thesis
  proof (cases "c < 0 \<or> n \<le> c")
    case out: True
    from rr_next_out_of_range [OF n out True] obtain r where
      "rr_next c (Some a) n = Some r" "0 \<le> r" "r < n" "0 <s burst_left (a ! nat r)"
      by blast
    with True show ?thesis by auto
  next
    case False
    then have c: "0 \<le> c" "c < n" by auto
    from rr_next_in_range [OF n c True] obtain r where
      r: "rr_next c (Some a) n = Some r" and
      post: "(if \<exists>j. 0 \<le> j \<and> j < n \<and> j \<noteq> c \<and> 0 <s burst_left (a ! nat j)
            then 0 \<le> r \<and> r < n \<and> r \<noteq> c \<and> 0 <s burst_left (a ! nat r) \<and>
                 (\<forall>j. 0 \<le> j \<and> j < n \<and> j \<noteq> c \<and> 0 <s burst_left (a ! nat j)
                    \<longrightarrow> cyc_dist n c r \<le> cyc_dist n c j)
            else r = c \<and> 0 <s burst_left (a ! nat c))"
      by blast
    have "0 \<le> r \<and> r < n \<and> 0 <s burst_left (a ! nat r)"
      using post c
      by (cases "\<exists>j. 0 \<le> j \<and> j < n \<and> j \<noteq> c \<and> 0 <s burst_left (a ! nat j)") simp_all
    with r True show ?thesis by auto
  qed
qed

section \<open>What \<^verbatim>\<open>rr_run\<close> computes\<close>

lemma sum_change_one:
  fixes g :: "nat \<Rightarrow> 'b::ab_group_add"
  assumes "c < n" and "\<And>k. k < n \<Longrightarrow> k \<noteq> c \<Longrightarrow> g' k = g k"
  shows "(\<Sum>k = 0..<n. g' k) = (\<Sum>k = 0..<n. g k) - g c + g' c"
proof -
  let ?S = "{0..<n} - {c}"
  have fin: "finite {0..<n}" and mem: "c \<in> {0..<n}"
    using assms(1) by simp_all
  have same: "(\<Sum>k\<in>?S. g' k) = (\<Sum>k\<in>?S. g k)"
    by (rule sum.cong) (use assms(2) in auto)
  have "(\<Sum>k = 0..<n. g' k) = g' c + (\<Sum>k\<in>?S. g' k)"
    by (rule sum.remove [OF fin mem])
  moreover have "(\<Sum>k = 0..<n. g k) = g c + (\<Sum>k\<in>?S. g k)"
    by (rule sum.remove [OF fin mem])
  ultimately show ?thesis
    using same by simp
qed

lemma remaining_total_nonneg: "0 \<le> remaining_total a"
  unfolding remaining_total_def by (rule sum_list_nonneg) auto

lemma signed_zero_iff:
  fixes b :: c_int
  shows "\<not> 0 <s b \<Longrightarrow> 0 \<le>s b \<Longrightarrow> b = 0"
  using signed.antisym_conv1 [of 0 b] by simp

lemma rr_step:
  assumes len: "plen = int (length a)" and q: "0 <s quantum"
    and c: "0 \<le> c" "c < plen" and run: "0 <s burst_left (a ! nat c)"
    and amount: "amount = (if burst_left (a ! nat c) <s quantum then burst_left (a ! nat c)
                           else quantum)"
  shows "0 < sint amount"
    and "0 \<le>s burst_left (a ! nat c) - amount"
    and "length (run_proc_mem a plen c amount) = length a"
    and "\<forall>k<length a. run_proc_mem a plen c amount ! k =
           (if k = nat c then (a ! k)\<lparr>burst_left := burst_left (a ! k) - amount\<rparr>
            else if 0 <s burst_left (a ! k) then (a ! k)\<lparr>wait := wait (a ! k) + amount\<rparr>
            else a ! k)"
    and "remaining_total (run_proc_mem a plen c amount) = remaining_total a - sint amount"
proof -
  define r where "r = burst_left (a ! nat c)"
  have pos: "0 <s amount" and le: "amount \<le>s r"
    using q run by (auto simp: amount r_def word_sless_alt word_sle_eq)
  have used: "\<not> burst_left (a ! nat c) <s amount"
    using le by (simp add: r_def word_sless_alt word_sle_eq)
  have sub: "sint (r - amount) = sint r - sint amount"
    by (rule sint_sub_no_wrap [OF pos le])
  show 1: "0 < sint amount"
    using pos by (simp add: word_sless_alt)
  show 2: "0 \<le>s burst_left (a ! nat c) - amount"
    using sub le by (simp add: r_def [symmetric] word_sle_eq)
  show 3: "length (run_proc_mem a plen c amount) = length a"
    by (rule run_proc_mem_length)
  have nc: "nat c < length a"
    using c len by simp
  have nth: "run_proc_mem a plen c amount ! k =
           (if k = nat c then (a ! k)\<lparr>burst_left := burst_left (a ! k) - amount\<rparr>
            else if 0 <s burst_left (a ! k) then (a ! k)\<lparr>wait := wait (a ! k) + amount\<rparr>
            else a ! k)" if "k < length a" for k
    using run_proc_mem_nth [OF c _ pos run that] used that len
    by simp
  then show 4: "\<forall>k<length a. run_proc_mem a plen c amount ! k =
           (if k = nat c then (a ! k)\<lparr>burst_left := burst_left (a ! k) - amount\<rparr>
            else if 0 <s burst_left (a ! k) then (a ! k)\<lparr>wait := wait (a ! k) + amount\<rparr>
            else a ! k)"
    by blast
  have "(\<Sum>p\<leftarrow>run_proc_mem a plen c amount. max 0 (sint (burst_left p))) =
        (\<Sum>p\<leftarrow>a. max 0 (sint (burst_left p))) - max 0 (sint (burst_left (a ! nat c)))
          + max 0 (sint (burst_left (run_proc_mem a plen c amount ! nat c)))"
    by (rule sum_list_map_change_one [OF nc 3]) (simp add: nth)
  moreover have "max 0 (sint (burst_left (a ! nat c))) = sint r"
    using run by (simp add: r_def word_sless_alt)
  moreover have "max 0 (sint (burst_left (run_proc_mem a plen c amount ! nat c))) =
                 sint r - sint amount"
    using nth [OF nc] sub le by (simp add: r_def word_sle_eq)
  ultimately show "remaining_total (run_proc_mem a plen c amount) = remaining_total a - sint amount"
    by (simp add: remaining_total_def)
qed

lemma rr_run_loop_result:
  assumes "plen = int (length a)" and "0 <s quantum"
  shows "\<exists>a'. rr_run_loop a plen quantum time current =
                Some (a', time + (\<Sum>j = 0..<length a. pos_burst (burst_left (a ! j)))) \<and>
              length a' = length a \<and>
              (\<forall>k<length a.
                  pid (a' ! k) = pid (a ! k) \<and>
                  burst_left (a' ! k) =
                    (if 0 <s burst_left (a ! k) then 0 else burst_left (a ! k)) \<and>
                  (\<not> 0 <s burst_left (a ! k) \<longrightarrow> a' ! k = a ! k))"
  using assms
proof (induction "nat (remaining_total a)" arbitrary: a time current rule: less_induct)
  case less
  note len = \<open>plen = int (length a)\<close>
  note q = \<open>0 <s quantum\<close>
  obtain r where r: "rr_next current (Some a) plen = Some r"
    and none: "r = - 1 \<longleftrightarrow> \<not> (\<exists>j. 0 \<le> j \<and> j < plen \<and> 0 <s burst_left (a ! nat j))"
    and some: "r \<noteq> - 1 \<longrightarrow> 0 \<le> r \<and> r < plen \<and> 0 <s burst_left (a ! nat r)"
    using rr_next_returns [of current a plen] by blast
  show ?case
  proof (cases "r = - 1")
    case True
    have "\<not> (\<exists>k<length a. 0 <s burst_left (a ! k))"
      using none True ex_int_index [of "length a" "\<lambda>k. 0 <s burst_left (a ! k)"] len by simp
    then have fin: "\<forall>k<length a. \<not> 0 <s burst_left (a ! k)"
      by blast
    then have "(\<Sum>j = 0..<length a. pos_burst (burst_left (a ! j))) = 0"
      by (simp add: pos_burst_def)
    moreover have "rr_run_loop a plen quantum time current = Some (a, time)"
      using r True by (subst rr_run_loop.simps) simp
    ultimately show ?thesis
      using fin by simp
  next
    case False
    then have c: "0 \<le> r" "r < plen" and run: "0 <s burst_left (a ! nat r)"
      using some by auto
    define amount where
      "amount = (if burst_left (a ! nat r) <s quantum then burst_left (a ! nat r) else quantum)"
    define a1 where "a1 = run_proc_mem a plen r amount"
    note st = rr_step [OF len q c run amount_def]
    have len1: "length a1 = length a"
      using st(3) by (simp add: a1_def)
    have nth1: "a1 ! k =
           (if k = nat r then (a ! k)\<lparr>burst_left := burst_left (a ! k) - amount\<rparr>
            else if 0 <s burst_left (a ! k) then (a ! k)\<lparr>wait := wait (a ! k) + amount\<rparr>
            else a ! k)" if "k < length a" for k
      using st(4) that by (simp add: a1_def)
    have nr: "nat r < length a"
      using c len by simp
    have dec: "nat (remaining_total a1) < nat (remaining_total a)"
      using st(1,5) remaining_total_nonneg [of a1] by (simp add: a1_def)
    have eq: "rr_run_loop a plen quantum time current =
              rr_run_loop a1 plen quantum (time + amount) r"
      using r False run
      by (subst rr_run_loop.simps) (simp add: a1_def amount_def word_sle_eq word_sless_alt)
    from less.hyps [OF dec, of "time + amount" r] len len1 q obtain a' where
      res: "rr_run_loop a1 plen quantum (time + amount) r =
              Some (a', time + amount + (\<Sum>j = 0..<length a1. pos_burst (burst_left (a1 ! j))))"
      and len': "length a' = length a1"
      and fin: "\<forall>k<length a1.
                  pid (a' ! k) = pid (a1 ! k) \<and>
                  burst_left (a' ! k) =
                    (if 0 <s burst_left (a1 ! k) then 0 else burst_left (a1 ! k)) \<and>
                  (\<not> 0 <s burst_left (a1 ! k) \<longrightarrow> a' ! k = a1 ! k)"
      by auto
    have b1r: "burst_left (a1 ! nat r) = burst_left (a ! nat r) - amount"
      using nth1 [OF nr] by simp
    have "(\<Sum>j = 0..<length a. pos_burst (burst_left (a1 ! j))) =
          (\<Sum>j = 0..<length a. pos_burst (burst_left (a ! j)))
            - pos_burst (burst_left (a ! nat r)) + pos_burst (burst_left (a1 ! nat r))"
      by (rule sum_change_one [OF nr]) (simp add: nth1)
    moreover have "pos_burst (burst_left (a ! nat r)) = burst_left (a ! nat r)"
      using run by (simp add: pos_burst_def)
    moreover have "pos_burst (burst_left (a1 ! nat r)) = burst_left (a ! nat r) - amount"
      using st(2) signed_zero_iff [of "burst_left (a ! nat r) - amount"]
      by (auto simp: pos_burst_def b1r)
    ultimately have total: "time + amount + (\<Sum>j = 0..<length a1. pos_burst (burst_left (a1 ! j))) =
                     time + (\<Sum>j = 0..<length a. pos_burst (burst_left (a ! j)))"
      by (simp add: len1)
    have cell: "pid (a' ! k) = pid (a ! k) \<and>
                burst_left (a' ! k) =
                  (if 0 <s burst_left (a ! k) then 0 else burst_left (a ! k)) \<and>
                (\<not> 0 <s burst_left (a ! k) \<longrightarrow> a' ! k = a ! k)" if k: "k < length a" for k
    proof (cases "k = nat r")
      case True
      have "burst_left (a' ! k) = 0"
        using fin k len1 True b1r st(2) signed_zero_iff [of "burst_left (a ! nat r) - amount"]
        by auto
      moreover have "pid (a' ! k) = pid (a ! k)"
        using fin k len1 nth1 [OF k] by simp
      ultimately show ?thesis
        using run True by simp
    next
      case False
      then show ?thesis
        using fin k len1 nth1 [OF k] by auto
    qed
    show ?thesis
      unfolding eq res total using len' len1 cell by simp
  qed
qed

lemma sint_pos_burst: "sint (pos_burst b) = max 0 (sint b)"
  by (simp add: pos_burst_def word_sless_alt)

lemma sint_sum_pos_burst:
  assumes "finite S" and "(\<Sum>j\<in>S. max 0 (sint (f j))) < 2 ^ 31"
  shows "sint (\<Sum>j\<in>S. pos_burst (f j)) = (\<Sum>j\<in>S. max 0 (sint (f j)))"
  using assms
proof (induction S rule: finite_induct)
  case empty
  then show ?case by simp
next
  case (insert x F)
  have nn: "0 \<le> (\<Sum>j\<in>F. max 0 (sint (f j)))"
    by (rule sum_nonneg) simp
  have tot: "max 0 (sint (f x)) + (\<Sum>j\<in>F. max 0 (sint (f j))) < 2 ^ 31"
    using insert.prems insert.hyps by simp
  then have "(\<Sum>j\<in>F. max 0 (sint (f j))) < 2 ^ 31"
    using max.cobounded1 [of 0 "sint (f x)"] by linarith
  then have ih: "sint (\<Sum>j\<in>F. pos_burst (f j)) = (\<Sum>j\<in>F. max 0 (sint (f j)))"
    by (rule insert.IH)
  have "sint (pos_burst (f x) + (\<Sum>j\<in>F. pos_burst (f j))) =
        signed_take_bit 31 (sint (pos_burst (f x)) + sint (\<Sum>j\<in>F. pos_burst (f j)))"
    by (simp add: sint_word_ariths)
  also have "\<dots> = signed_take_bit 31 (max 0 (sint (f x)) + (\<Sum>j\<in>F. max 0 (sint (f j))))"
    by (simp add: ih sint_pos_burst)
  also have "\<dots> = max 0 (sint (f x)) + (\<Sum>j\<in>F. max 0 (sint (f j)))"
    using tot nn by (intro signed_take_bit_int_eq_self) auto
  finally show ?case
    using insert.hyps by simp
qed

lemma pos_burst_nonneg: "0 \<le>s b \<Longrightarrow> pos_burst b = b"
  using signed_zero_iff [of b] by (auto simp: pos_burst_def)

lemma fresh_sum:
  assumes "length a = length bs" and "\<forall>k<length bs. burst_left (a ! k) = bs ! k"
  shows "(\<Sum>j = 0..<length a. pos_burst (burst_left (a ! j))) = (\<Sum>b\<leftarrow>bs. pos_burst b)"
proof -
  have "(\<Sum>j = 0..<length a. pos_burst (burst_left (a ! j))) =
        (\<Sum>j = 0..<length bs. pos_burst (bs ! j))"
    unfolding assms(1) by (rule sum.cong) (use assms(2) in auto)
  also have "\<dots> = (\<Sum>b\<leftarrow>bs. pos_burst b)"
    by (simp add: sum_list_map_nth atLeast0LessThan)
  finally show ?thesis .
qed

lemma rr_run_result:
  assumes "plen = int (length a)" and "0 <s quantum"
  shows "\<exists>a'. rr_run (Some a) plen quantum =
                Some (Some a', \<Sum>j = 0..<length a. pos_burst (burst_left (a ! j))) \<and>
              length a' = length a \<and>
              (\<forall>k<length a.
                  pid (a' ! k) = pid (a ! k) \<and>
                  burst_left (a' ! k) =
                    (if 0 <s burst_left (a ! k) then 0 else burst_left (a ! k)) \<and>
                  (\<not> 0 <s burst_left (a ! k) \<longrightarrow> a' ! k = a ! k))"
proof (cases "plen \<le> 0")
  case True
  then have "a = []"
    using assms by simp
  then show ?thesis
    using True by (simp add: rr_run_def)
next
  case False
  have nq: "\<not> quantum \<le>s 0"
    using assms(2) by (simp add: word_sle_eq word_sless_alt)
  from rr_run_loop_result [OF assms, of 0 "- 1"] obtain a' where
    "rr_run_loop a plen quantum 0 (- 1) =
       Some (a', 0 + (\<Sum>j = 0..<length a. pos_burst (burst_left (a ! j))))"
    "length a' = length a"
    "\<forall>k<length a.
        pid (a' ! k) = pid (a ! k) \<and>
        burst_left (a' ! k) = (if 0 <s burst_left (a ! k) then 0 else burst_left (a ! k)) \<and>
        (\<not> 0 <s burst_left (a ! k) \<longrightarrow> a' ! k = a ! k)"
    by blast
  then show ?thesis
    using False nq by (simp add: rr_run_def)
qed

section \<open>Runs on a freshly constructed table\<close>

lemma fresh_runs:
  assumes "bs \<noteq> []"
  shows "\<exists>a f r.
           init_procs (Some bs) (int (length bs)) = Some a \<and>
           length a = length bs \<and>
           (\<forall>k<length bs. a ! k = \<lparr>pid = word_of_int (int k), burst_left = bs ! k, wait = 0\<rparr>) \<and>
           fcfs_run (Some a) (int (length bs)) = (Some f, \<Sum>b\<leftarrow>bs. pos_burst b) \<and>
           length f = length bs \<and>
           (\<forall>k<length bs. f ! k = fcfs_final a 0 k) \<and>
           (0 <s quantum \<longrightarrow>
              rr_run (Some a) (int (length bs)) quantum = Some (Some r, \<Sum>b\<leftarrow>bs. pos_burst b) \<and>
              length r = length bs \<and>
              (\<forall>k<length bs.
                  pid (r ! k) = pid (a ! k) \<and>
                  burst_left (r ! k) = (if 0 <s bs ! k then 0 else bs ! k) \<and>
                  (\<not> 0 <s bs ! k \<longrightarrow> r ! k = a ! k)))"
proof -
  from init_procs_fresh [OF assms] obtain a where
    a: "init_procs (Some bs) (int (length bs)) = Some a" and
    la: "length a = length bs" and
    na: "\<forall>k<length bs. a ! k = \<lparr>pid = word_of_int (int k), burst_left = bs ! k, wait = 0\<rparr>"
    by blast
  have bl: "\<forall>k<length bs. burst_left (a ! k) = bs ! k"
    using na by simp
  have sum: "(\<Sum>j = 0..<length bs. pos_burst (burst_left (a ! j))) = (\<Sum>b\<leftarrow>bs. pos_burst b)"
    using fresh_sum [OF la bl] by (simp add: la)
  have len: "int (length bs) = int (length a)"
    using la by simp
  from fcfs_run_result [OF len] obtain f where
    f: "fcfs_run (Some a) (int (length bs)) = (Some f, \<Sum>b\<leftarrow>bs. pos_burst b)"
       "length f = length bs" "\<forall>k<length bs. f ! k = fcfs_final a 0 k"
    unfolding la sum by blast
  show ?thesis
  proof (cases "0 <s quantum")
    case False
    with a la na f show ?thesis by blast
  next
    case True
    from rr_run_result [OF len True] obtain r where
      r: "rr_run (Some a) (int (length bs)) quantum = Some (Some r, \<Sum>b\<leftarrow>bs. pos_burst b)"
         "length r = length bs"
         "\<forall>k<length bs.
                  pid (r ! k) = pid (a ! k) \<and>
                  burst_left (r ! k) = (if 0 <s bs ! k then 0 else bs ! k) \<and>
                  (\<not> 0 <s bs ! k \<longrightarrow> r ! k = a ! k)"
      unfolding la sum using bl by auto
    with a la na f show ?thesis by blast
  qed
qed

section \<open>The effect of one step\<close>

text \<open>
  Claim C4. For a table of \<open>plen\<close> entries, an index \<open>current\<close> in range whose
  \<^verbatim>\<open>burst_left\<close> is positive and an \<open>amount > 0\<close>, \<^verbatim>\<open>run_proc\<close> uses
  \<open>used = min amount remaining\<close>: the \<^verbatim>\<open>burst_left\<close> of \<open>current\<close> goes down by exactly
  \<open>used\<close> (without wrap-around, and stays \<open>\<ge> 0\<close>), every other index whose
  \<^verbatim>\<open>burst_left\<close> is positive has \<open>used\<close> added to its \<^verbatim>\<open>wait\<close>, and nothing else
  changes: no \<^verbatim>\<open>pid\<close>, not the \<^verbatim>\<open>wait\<close> of \<open>current\<close>, no other \<^verbatim>\<open>burst_left\<close>, no
  \<^verbatim>\<open>wait\<close> of a finished process, and not the length of the table.
\<close>

theorem run_proc_effect:
  assumes "plen = int (length a)" and "0 \<le> current" and "current < plen"
    and "0 <s burst_left (a ! nat current)" and "0 <s amount"
  shows "\<exists>a' used.
           run_proc (Some a) plen current amount = Some a' \<and>
           sint used = min (sint amount) (sint (burst_left (a ! nat current))) \<and>
           length a' = length a \<and>
           burst_left (a' ! nat current) = burst_left (a ! nat current) - used \<and>
           sint (burst_left (a' ! nat current)) = sint (burst_left (a ! nat current)) - sint used \<and>
           0 \<le>s burst_left (a' ! nat current) \<and>
           wait (a' ! nat current) = wait (a ! nat current) \<and>
           (\<forall>k<length a. pid (a' ! k) = pid (a ! k)) \<and>
           (\<forall>k<length a. k \<noteq> nat current \<longrightarrow>
              burst_left (a' ! k) = burst_left (a ! k) \<and>
              wait (a' ! k) =
                (if 0 <s burst_left (a ! k) then wait (a ! k) + used else wait (a ! k)))"
  using assms by (rule run_proc_valid_call)

theorem run_proc_effect_witness:
  "\<exists>a' used.
     run_proc (Some table_5_3) 2 0 4 = Some a' \<and>
     sint used = min (sint (4::c_int)) (sint (burst_left (table_5_3 ! nat 0))) \<and>
     length a' = length table_5_3 \<and>
     burst_left (a' ! nat 0) = burst_left (table_5_3 ! nat 0) - used \<and>
     sint (burst_left (a' ! nat 0)) = sint (burst_left (table_5_3 ! nat 0)) - sint used \<and>
     0 \<le>s burst_left (a' ! nat 0) \<and>
     wait (a' ! nat 0) = wait (table_5_3 ! nat 0) \<and>
     (\<forall>k<length table_5_3. pid (a' ! k) = pid (table_5_3 ! k)) \<and>
     (\<forall>k<length table_5_3. k \<noteq> nat 0 \<longrightarrow>
        burst_left (a' ! k) = burst_left (table_5_3 ! k) \<and>
        wait (a' ! k) =
          (if 0 <s burst_left (table_5_3 ! k)
           then wait (table_5_3 ! k) + used
           else wait (table_5_3 ! k)))"
  by (rule run_proc_effect) (simp_all add: table_5_3_def word_sless_alt)

text \<open>
  Claim C8. A call of \<^verbatim>\<open>run_proc\<close> on a table of \<open>plen\<close> entries advances time by
  \<open>t = min amount remaining\<close> when it passes its guards and by \<open>t = 0\<close> when it does not.
  The sum of all \<^verbatim>\<open>burst_left\<close> (as mathematical integers) goes down by exactly \<open>t\<close>,
  and every \<^verbatim>\<open>burst_left\<close> that was \<open>\<ge> 0\<close> before the call is \<open>\<ge> 0\<close> after it.
\<close>

theorem run_proc_total_burst:
  assumes "plen = int (length a)"
  shows "\<exists>a'. run_proc (Some a) plen current amount = Some a' \<and>
           (\<Sum>p\<leftarrow>a'. sint (burst_left p)) =
             (\<Sum>p\<leftarrow>a. sint (burst_left p)) -
               (if plen \<le> 0 \<or> current < 0 \<or> plen \<le> current \<or> amount \<le>s 0 \<or>
                   burst_left (a ! nat current) \<le>s 0
                then 0
                else min (sint amount) (sint (burst_left (a ! nat current)))) \<and>
           (\<forall>k<length a. 0 \<le>s burst_left (a ! k) \<longrightarrow> 0 \<le>s burst_left (a' ! k))"
proof (cases "plen \<le> 0 \<or> current < 0 \<or> plen \<le> current \<or> amount \<le>s 0 \<or>
                   burst_left (a ! nat current) \<le>s 0")
  case True
  then have "run_proc_mem a plen current amount = a"
    using run_proc_mem_noop [of plen current amount a] run_proc_mem_finished [of a current plen amount]
    by auto
  with True show ?thesis
    by (simp add: run_proc_def)
next
  case False
  then have h: "0 \<le> current" "current < plen" "0 <s burst_left (a ! nat current)" "0 <s amount"
    by (auto simp: word_sle_eq word_sless_alt)
  obtain a' used where
    r: "run_proc (Some a) plen current amount = Some a'" and
    u: "sint used = min (sint amount) (sint (burst_left (a ! nat current)))" and
    l: "length a' = length a" and
    s: "sint (burst_left (a' ! nat current)) = sint (burst_left (a ! nat current)) - sint used" and
    n: "0 \<le>s burst_left (a' ! nat current)" and
    o: "\<forall>k<length a. k \<noteq> nat current \<longrightarrow>
              burst_left (a' ! k) = burst_left (a ! k) \<and>
              wait (a' ! k) =
                (if 0 <s burst_left (a ! k) then wait (a ! k) + used else wait (a ! k))"
    using run_proc_valid_call [OF assms h] by blast
  have c: "nat current < length a"
    using h assms by simp
  have "(\<Sum>p\<leftarrow>a'. sint (burst_left p)) =
          (\<Sum>p\<leftarrow>a. sint (burst_left p)) - sint (burst_left (a ! nat current))
             + sint (burst_left (a' ! nat current))"
    by (rule sum_list_map_change_one [OF c l]) (use o in simp)
  then have sum: "(\<Sum>p\<leftarrow>a'. sint (burst_left p)) = (\<Sum>p\<leftarrow>a. sint (burst_left p)) - sint used"
    using s by simp
  have keep: "\<forall>k<length a. 0 \<le>s burst_left (a ! k) \<longrightarrow> 0 \<le>s burst_left (a' ! k)"
    using o n by (metis)
  show ?thesis
    using r sum keep False u by simp
qed

theorem run_proc_total_burst_witness:
  "\<exists>a'. run_proc (Some table_5_3) 2 1 2 = Some a' \<and>
     (\<Sum>p\<leftarrow>a'. sint (burst_left p)) =
       (\<Sum>p\<leftarrow>table_5_3. sint (burst_left p)) -
         (if (2::int) \<le> 0 \<or> (1::int) < 0 \<or> (2::int) \<le> 1 \<or> (2::c_int) \<le>s 0 \<or>
             burst_left (table_5_3 ! nat 1) \<le>s 0
          then 0
          else min (sint (2::c_int)) (sint (burst_left (table_5_3 ! nat 1)))) \<and>
     (\<forall>k<length table_5_3. 0 \<le>s burst_left (table_5_3 ! k) \<longrightarrow> 0 \<le>s burst_left (a' ! k))"
  by (rule run_proc_total_burst) (simp add: table_5_3_def)

section \<open>Invalid calls\<close>

text \<open>
  Claim C9. Invalid calls change nothing: \<^verbatim>\<open>run_proc\<close> with a \<^verbatim>\<open>NULL\<close> table, with
  \<open>plen \<le> 0\<close>, with an index out of range or with \<open>amount \<le> 0\<close> returns the table as it
  was; \<^verbatim>\<open>rr_run\<close> with a \<^verbatim>\<open>NULL\<close> or empty table or with \<open>quantum \<le> 0\<close> returns 0 and
  the table as it was.
\<close>

theorem invalid_calls_change_nothing:
  "(procs = None \<or> plen \<le> 0 \<or> current < 0 \<or> plen \<le> current \<or> amount \<le>s 0
      \<longrightarrow> run_proc procs plen current amount = procs) \<and>
   (procs = None \<or> plen \<le> 0 \<or> quantum \<le>s 0
      \<longrightarrow> rr_run procs plen quantum = Some (procs, 0))"
  by (cases procs) (auto simp: run_proc_def rr_run_def run_proc_mem_noop)

theorem invalid_calls_change_nothing_witness:
  "(Some table_5_3 = None \<or> (2::int) \<le> 0 \<or> (2::int) < 0 \<or> (2::int) \<le> 2 \<or> (4::c_int) \<le>s 0) \<and>
   run_proc (Some table_5_3) 2 2 4 = Some table_5_3 \<and>
   (Some table_5_3 = None \<or> (2::int) \<le> 0 \<or> (- 3::c_int) \<le>s 0) \<and>
   rr_run (Some table_5_3) 2 (- 3) = Some (Some table_5_3, 0)"
  using invalid_calls_change_nothing [of "Some table_5_3" 2 2 4 "- 3"]
  by (simp add: word_sle_eq)

section \<open>Round-robin selection\<close>

text \<open>
  Claim C5. On a table of \<open>plen\<close> entries:
  \<^item> when \<open>previous\<close> is in range and some other index is runnable (\<^verbatim>\<open>burst_left > 0\<close>),
    \<^verbatim>\<open>rr_next\<close> returns the runnable index other than \<open>previous\<close> with the smallest
    cyclic forward distance from \<open>previous + 1\<close>;
  \<^item> when \<open>previous\<close> is in range, no other index is runnable and \<open>previous\<close> is, it
    returns \<open>previous\<close>;
  \<^item> when \<open>previous\<close> is out of range (as the initial \<open>-1\<close>) and some index is runnable,
    it returns the lowest runnable index;
  \<^item> it always returns, and an index it returns (a result other than \<open>-1\<close>) is in range
    and has \<^verbatim>\<open>burst_left > 0\<close>.
\<close>

theorem rr_next_selection:
  assumes "plen = int (length a)"
  shows
   "(0 \<le> previous \<and> previous < plen \<and>
       (\<exists>j. 0 \<le> j \<and> j < plen \<and> j \<noteq> previous \<and> 0 <s burst_left (a ! nat j)) \<longrightarrow>
       (\<exists>r. rr_next previous (Some a) plen = Some r \<and>
             0 \<le> r \<and> r < plen \<and> r \<noteq> previous \<and> 0 <s burst_left (a ! nat r) \<and>
             (\<forall>j. 0 \<le> j \<and> j < plen \<and> j \<noteq> previous \<and> 0 <s burst_left (a ! nat j) \<longrightarrow>
                  cyc_dist plen previous r \<le> cyc_dist plen previous j))) \<and>
    (0 \<le> previous \<and> previous < plen \<and>
       \<not> (\<exists>j. 0 \<le> j \<and> j < plen \<and> j \<noteq> previous \<and> 0 <s burst_left (a ! nat j)) \<and>
       0 <s burst_left (a ! nat previous) \<longrightarrow>
       rr_next previous (Some a) plen = Some previous) \<and>
    ((previous < 0 \<or> plen \<le> previous) \<and>
       (\<exists>j. 0 \<le> j \<and> j < plen \<and> 0 <s burst_left (a ! nat j)) \<longrightarrow>
       (\<exists>r. rr_next previous (Some a) plen = Some r \<and>
             0 \<le> r \<and> r < plen \<and> 0 <s burst_left (a ! nat r) \<and>
             (\<forall>j. 0 \<le> j \<and> j < r \<longrightarrow> \<not> 0 <s burst_left (a ! nat j)))) \<and>
    (\<exists>r. rr_next previous (Some a) plen = Some r \<and>
          (r \<noteq> - 1 \<longrightarrow> 0 \<le> r \<and> r < plen \<and> 0 <s burst_left (a ! nat r)))"
proof (intro conjI impI)
  assume h: "0 \<le> previous \<and> previous < plen \<and>
       (\<exists>j. 0 \<le> j \<and> j < plen \<and> j \<noteq> previous \<and> 0 <s burst_left (a ! nat j))"
  then have n: "0 < plen" and c: "0 \<le> previous" "previous < plen"
    and any: "\<exists>j. 0 \<le> j \<and> j < plen \<and> 0 <s burst_left (a ! nat j)"
    by auto
  from rr_next_in_range [OF n c any] h
  show "\<exists>r. rr_next previous (Some a) plen = Some r \<and>
             0 \<le> r \<and> r < plen \<and> r \<noteq> previous \<and> 0 <s burst_left (a ! nat r) \<and>
             (\<forall>j. 0 \<le> j \<and> j < plen \<and> j \<noteq> previous \<and> 0 <s burst_left (a ! nat j) \<longrightarrow>
                  cyc_dist plen previous r \<le> cyc_dist plen previous j)"
    by simp
next
  assume h: "0 \<le> previous \<and> previous < plen \<and>
       \<not> (\<exists>j. 0 \<le> j \<and> j < plen \<and> j \<noteq> previous \<and> 0 <s burst_left (a ! nat j)) \<and>
       0 <s burst_left (a ! nat previous)"
  then have n: "0 < plen" and c: "0 \<le> previous" "previous < plen"
    and any: "\<exists>j. 0 \<le> j \<and> j < plen \<and> 0 <s burst_left (a ! nat j)"
    by auto
  from rr_next_in_range [OF n c any] h
  show "rr_next previous (Some a) plen = Some previous"
    by simp
next
  assume h: "(previous < 0 \<or> plen \<le> previous) \<and>
       (\<exists>j. 0 \<le> j \<and> j < plen \<and> 0 <s burst_left (a ! nat j))"
  then have n: "0 < plen" by auto
  from rr_next_out_of_range [OF n] h
  show "\<exists>r. rr_next previous (Some a) plen = Some r \<and>
             0 \<le> r \<and> r < plen \<and> 0 <s burst_left (a ! nat r) \<and>
             (\<forall>j. 0 \<le> j \<and> j < r \<longrightarrow> \<not> 0 <s burst_left (a ! nat j))"
    by blast
next
  from rr_next_returns [of previous a plen]
  show "\<exists>r. rr_next previous (Some a) plen = Some r \<and>
          (r \<noteq> - 1 \<longrightarrow> 0 \<le> r \<and> r < plen \<and> 0 <s burst_left (a ! nat r))"
    by blast
qed

theorem rr_next_selection_witness:
  "(\<exists>r. rr_next 1 (Some table_rr) 4 = Some r \<and>
         0 \<le> r \<and> r < 4 \<and> r \<noteq> 1 \<and> 0 <s burst_left (table_rr ! nat r) \<and>
         (\<forall>j. 0 \<le> j \<and> j < 4 \<and> j \<noteq> 1 \<and> 0 <s burst_left (table_rr ! nat j) \<longrightarrow>
              cyc_dist 4 1 r \<le> cyc_dist 4 1 j)) \<and>
   rr_next 1 (Some table_one) 2 = Some 1 \<and>
   (\<exists>r. rr_next (- 1) (Some table_rr) 4 = Some r \<and>
         0 \<le> r \<and> r < 4 \<and> 0 <s burst_left (table_rr ! nat r) \<and>
         (\<forall>j. 0 \<le> j \<and> j < r \<longrightarrow> \<not> 0 <s burst_left (table_rr ! nat j)))"
proof -
  have l4: "4 = int (length table_rr)"
    by (simp add: table_rr_def)
  have l2: "2 = int (length table_one)"
    by (simp add: table_one_def)
  have other: "\<exists>j. 0 \<le> j \<and> j < 4 \<and> j \<noteq> 1 \<and> 0 <s burst_left (table_rr ! nat j)"
    by (rule exI [of _ 3]) (simp add: table_rr_def word_sless_alt)
  have any: "\<exists>j. 0 \<le> j \<and> j < 4 \<and> 0 <s burst_left (table_rr ! nat j)"
    by (rule exI [of _ 3]) (simp add: table_rr_def word_sless_alt)
  have alone: "\<not> (\<exists>j. 0 \<le> j \<and> j < 2 \<and> j \<noteq> 1 \<and> 0 <s burst_left (table_one ! nat j))"
  proof
    assume "\<exists>j. 0 \<le> j \<and> j < 2 \<and> j \<noteq> 1 \<and> 0 <s burst_left (table_one ! nat j)"
    then obtain j :: int where "0 \<le> j" "j < 2" "j \<noteq> 1" "0 <s burst_left (table_one ! nat j)"
      by blast
    then have "j = 0" "0 <s burst_left (table_one ! nat j)" by auto
    then show False by (simp add: table_one_def)
  qed
  have self: "0 <s burst_left (table_one ! nat 1)"
    by (simp add: table_one_def word_sless_alt)
  have A: "\<exists>r. rr_next 1 (Some table_rr) 4 = Some r \<and>
         0 \<le> r \<and> r < 4 \<and> r \<noteq> 1 \<and> 0 <s burst_left (table_rr ! nat r) \<and>
         (\<forall>j. 0 \<le> j \<and> j < 4 \<and> j \<noteq> 1 \<and> 0 <s burst_left (table_rr ! nat j) \<longrightarrow>
              cyc_dist 4 1 r \<le> cyc_dist 4 1 j)"
    using rr_next_selection [OF l4, of 1, THEN conjunct1] other by simp
  have B: "rr_next 1 (Some table_one) 2 = Some 1"
    using rr_next_selection [OF l2, of 1, THEN conjunct2, THEN conjunct1] alone self by simp
  have C: "\<exists>r. rr_next (- 1) (Some table_rr) 4 = Some r \<and>
         0 \<le> r \<and> r < 4 \<and> 0 <s burst_left (table_rr ! nat r) \<and>
         (\<forall>j. 0 \<le> j \<and> j < r \<longrightarrow> \<not> 0 <s burst_left (table_rr ! nat j))"
    using rr_next_selection [OF l4, of "- 1", THEN conjunct2, THEN conjunct2, THEN conjunct1] any
    by simp
  show ?thesis
    by (intro conjI A B C)
qed

text \<open>
  Claim C6, as the code has it. On a table of \<open>plen\<close> entries and for every \<open>previous\<close>,
  \<^verbatim>\<open>rr_next\<close> returns \<open>-1\<close> if and only if every process has \<^verbatim>\<open>burst_left \<le> 0\<close>.
  The claim says \<^verbatim>\<open>burst_left == 0\<close>; a table holding a negative burst and nothing
  runnable also yields \<open>-1\<close>, which the counterexample below shows.
\<close>

theorem rr_next_none_iff:
  assumes "plen = int (length a)"
  shows "rr_next previous (Some a) plen = Some (- 1) \<longleftrightarrow>
           (\<forall>k<length a. burst_left (a ! k) \<le>s 0)"
proof -
  have "(\<exists>j. 0 \<le> j \<and> j < plen \<and> 0 <s burst_left (a ! nat j)) \<longleftrightarrow>
        (\<exists>k<length a. 0 <s burst_left (a ! k))"
    unfolding assms by (rule ex_int_index)
  also have "\<dots> \<longleftrightarrow> \<not> (\<forall>k<length a. burst_left (a ! k) \<le>s 0)"
    by (auto simp: word_sle_eq word_sless_alt not_le)
  finally show ?thesis
    using rr_next_returns [of previous a plen] by auto
qed

theorem rr_next_none_iff_witness:
  "(1::int) = int (length table_neg) \<and>
   burst_left (table_neg ! 0) \<le>s 0 \<and>
   rr_next 0 (Some table_neg) 1 = Some (- 1)"
  using rr_next_none_iff [of 1 table_neg 0]
  by (simp add: table_neg_def word_sle_eq)

theorem rr_next_none_iff_counterexample:
  "rr_next (- 1) (Some table_neg) 1 = Some (- 1) \<and> burst_left (table_neg ! 0) \<noteq> 0"
  by (simp add: table_neg_def rr_next_def rr_next_any.simps word_sless_alt)

section \<open>Termination of the round-robin run\<close>

text \<open>
  Claim C7. For every table of \<open>plen\<close> entries and every \<open>quantum > 0\<close>, \<^verbatim>\<open>rr_run\<close>
  terminates: it returns a table and a time, and on the returned table \<^verbatim>\<open>rr_next\<close>
  signals \<open>-1\<close> whatever the previous index. An iteration in which \<^verbatim>\<open>rr_next\<close> returns
  an index \<open>c\<close> runs it for \<open>amount = min remaining quantum > 0\<close>, lowers the total
  remaining burst by exactly \<open>amount\<close> and goes round the loop again; an iteration in
  which \<^verbatim>\<open>rr_next\<close> returns \<open>-1\<close> leaves the loop with the table and the time as they
  are.
\<close>

theorem rr_run_terminates:
  assumes "plen = int (length a)" and "0 <s quantum"
  shows "(\<exists>a' t. rr_run (Some a) plen quantum = Some (Some a', t) \<and>
                 (\<forall>c. rr_next c (Some a') plen = Some (- 1))) \<and>
         (\<forall>time current c.
             rr_next current (Some a) plen = Some c \<and> c \<noteq> - 1 \<longrightarrow>
             (\<exists>amount.
                 amount = (if burst_left (a ! nat c) <s quantum then burst_left (a ! nat c)
                           else quantum) \<and>
                 0 < sint amount \<and>
                 remaining_total (run_proc_mem a plen c amount) =
                   remaining_total a - sint amount \<and>
                 rr_run_loop a plen quantum time current =
                   rr_run_loop (run_proc_mem a plen c amount) plen quantum (time + amount) c)) \<and>
         (\<forall>time current.
             rr_next current (Some a) plen = Some (- 1) \<longrightarrow>
             rr_run_loop a plen quantum time current = Some (a, time))"
proof (intro conjI allI impI)
  from rr_run_result [OF assms] obtain a' where
    r: "rr_run (Some a) plen quantum =
          Some (Some a', \<Sum>j = 0..<length a. pos_burst (burst_left (a ! j)))" and
    l: "length a' = length a" and
    f: "\<forall>k<length a.
          pid (a' ! k) = pid (a ! k) \<and>
          burst_left (a' ! k) = (if 0 <s burst_left (a ! k) then 0 else burst_left (a ! k)) \<and>
          (\<not> 0 <s burst_left (a ! k) \<longrightarrow> a' ! k = a ! k)"
    by blast
  have "\<not> 0 <s burst_left (a' ! k)" if "k < length a'" for k
    using f that l by (auto simp: word_sless_alt)
  then have "\<not> (\<exists>k<length a'. 0 <s burst_left (a' ! k))"
    by blast
  then have "\<not> (\<exists>j. 0 \<le> j \<and> j < plen \<and> 0 <s burst_left (a' ! nat j))"
    using ex_int_index [of "length a'" "\<lambda>k. 0 <s burst_left (a' ! k)"] l assms(1) by simp
  then have "\<forall>c. rr_next c (Some a') plen = Some (- 1)"
    using rr_next_all_finished by blast
  with r show "\<exists>a' t. rr_run (Some a) plen quantum = Some (Some a', t) \<and>
                 (\<forall>c. rr_next c (Some a') plen = Some (- 1))"
    by blast
next
  fix time current c
  assume h: "rr_next current (Some a) plen = Some c \<and> c \<noteq> - 1"
  then have c: "0 \<le> c" "c < plen" and run: "0 <s burst_left (a ! nat c)"
    using rr_next_returns [of current a plen] by auto
  define amount where
    "amount = (if burst_left (a ! nat c) <s quantum then burst_left (a ! nat c) else quantum)"
  note st = rr_step [OF assms c run amount_def]
  have "rr_run_loop a plen quantum time current =
          rr_run_loop (run_proc_mem a plen c amount) plen quantum (time + amount) c"
    using h run
    by (subst rr_run_loop.simps) (simp add: amount_def word_sle_eq word_sless_alt)
  with st(1,5) amount_def
  show "\<exists>amount.
          amount = (if burst_left (a ! nat c) <s quantum then burst_left (a ! nat c)
                    else quantum) \<and>
          0 < sint amount \<and>
          remaining_total (run_proc_mem a plen c amount) = remaining_total a - sint amount \<and>
          rr_run_loop a plen quantum time current =
            rr_run_loop (run_proc_mem a plen c amount) plen quantum (time + amount) c"
    by blast
next
  fix time current
  assume "rr_next current (Some a) plen = Some (- 1)"
  then show "rr_run_loop a plen quantum time current = Some (a, time)"
    by (subst rr_run_loop.simps) simp
qed

theorem rr_run_terminates_witness:
  "(\<exists>a' t. rr_run (Some table_5_3) 2 2 = Some (Some a', t) \<and>
            (\<forall>c. rr_next c (Some a') 2 = Some (- 1))) \<and>
   remaining_total (run_proc_mem table_5_3 2 0 2) = remaining_total table_5_3 - 2 \<and>
   rr_run_loop table_5_3 2 2 0 (- 1) = rr_run_loop (run_proc_mem table_5_3 2 0 2) 2 2 (0 + 2) 0 \<and>
   rr_run_loop table_neg 1 2 0 (- 1) = Some (table_neg, 0)"
proof -
  have l: "2 = int (length table_5_3)"
    by (simp add: table_5_3_def)
  have l': "1 = int (length table_neg)"
    by (simp add: table_neg_def)
  have q: "0 <s (2 :: c_int)"
    by (simp add: word_sless_alt)
  have first: "rr_next (- 1) (Some table_5_3) 2 = Some 0 \<and> (0::int) \<noteq> - 1"
    by code_simp
  have last: "rr_next (- 1) (Some table_neg) 1 = Some (- 1)"
    by code_simp
  note t = rr_run_terminates [OF l q]
  note t' = rr_run_terminates [OF l' q]
  have amt: "(if burst_left (table_5_3 ! nat 0) <s 2 then burst_left (table_5_3 ! nat 0) else 2) = 2"
    by (simp add: table_5_3_def word_sless_alt)
  have A: "\<exists>a' t. rr_run (Some table_5_3) 2 2 = Some (Some a', t) \<and>
            (\<forall>c. rr_next c (Some a') 2 = Some (- 1))"
    by (rule t [THEN conjunct1])
  from t [THEN conjunct2, THEN conjunct1, rule_format, OF first, of 0]
  have B: "remaining_total (run_proc_mem table_5_3 2 0 2) = remaining_total table_5_3 - 2"
    and C: "rr_run_loop table_5_3 2 2 0 (- 1) =
              rr_run_loop (run_proc_mem table_5_3 2 0 2) 2 2 (0 + 2) 0"
    unfolding amt by simp_all
  have D: "rr_run_loop table_neg 1 2 0 (- 1) = Some (table_neg, 0)"
    by (rule t' [THEN conjunct2, THEN conjunct2, rule_format, OF last])
  show ?thesis
    by (intro conjI A B C D)
qed

section \<open>The two schedulers on a burst sequence\<close>

text \<open>
  Claim C1, as the code has it. For every non-empty burst sequence, after \<^verbatim>\<open>fcfs_run\<close>
  (respectively \<^verbatim>\<open>rr_run\<close> with \<open>quantum > 0\<close>) returns, every PCB whose input burst was
  \<open>\<ge> 0\<close> has \<^verbatim>\<open>burst_left == 0\<close>, and every PCB whose input burst was negative still
  has that negative \<^verbatim>\<open>burst_left\<close>. The claim says 0 for every PCB; the counterexample
  is the burst sequence \<open>[-1]\<close>.
\<close>

theorem runs_finish_every_process:
  assumes "bs \<noteq> []"
  shows "\<exists>a. init_procs (Some bs) (int (length bs)) = Some a \<and>
           (\<exists>f t. fcfs_run (Some a) (int (length bs)) = (Some f, t) \<and>
                  length f = length bs \<and>
                  (\<forall>k<length bs. burst_left (f ! k) = (if 0 \<le>s bs ! k then 0 else bs ! k))) \<and>
           (0 <s quantum \<longrightarrow>
              (\<exists>r t. rr_run (Some a) (int (length bs)) quantum = Some (Some r, t) \<and>
                     length r = length bs \<and>
                     (\<forall>k<length bs. burst_left (r ! k) = (if 0 \<le>s bs ! k then 0 else bs ! k))))"
proof -
  from fresh_runs [OF assms, of quantum] obtain a f r where
    a: "init_procs (Some bs) (int (length bs)) = Some a" and
    na: "\<forall>k<length bs. a ! k = \<lparr>pid = word_of_int (int k), burst_left = bs ! k, wait = 0\<rparr>" and
    f: "fcfs_run (Some a) (int (length bs)) = (Some f, \<Sum>b\<leftarrow>bs. pos_burst b)"
       "length f = length bs" "\<forall>k<length bs. f ! k = fcfs_final a 0 k" and
    r: "0 <s quantum \<longrightarrow>
              rr_run (Some a) (int (length bs)) quantum = Some (Some r, \<Sum>b\<leftarrow>bs. pos_burst b) \<and>
              length r = length bs \<and>
              (\<forall>k<length bs.
                  pid (r ! k) = pid (a ! k) \<and>
                  burst_left (r ! k) = (if 0 <s bs ! k then 0 else bs ! k) \<and>
                  (\<not> 0 <s bs ! k \<longrightarrow> r ! k = a ! k))"
    by blast
  have split: "(if 0 <s b then 0 else b) = (if 0 \<le>s b then 0 else b)" for b :: c_int
    using signed_zero_iff [of b] by (auto simp: word_sle_eq word_sless_alt)
  have "burst_left (f ! k) = (if 0 <s bs ! k then 0 else bs ! k)" if "k < length bs" for k
    using f(3) na that by (simp add: fcfs_final_def)
  then have ff: "\<forall>k<length bs. burst_left (f ! k) = (if 0 \<le>s bs ! k then 0 else bs ! k)"
    unfolding split by blast
  have rr: "0 <s quantum \<longrightarrow>
              (\<exists>r t. rr_run (Some a) (int (length bs)) quantum = Some (Some r, t) \<and>
                     length r = length bs \<and>
                     (\<forall>k<length bs. burst_left (r ! k) = (if 0 \<le>s bs ! k then 0 else bs ! k)))"
    using r split by auto
  show ?thesis
    using a f(1,2) ff rr by blast
qed

theorem runs_finish_every_process_witness:
  "\<exists>a. init_procs (Some bursts_5_3_8) (int (length bursts_5_3_8)) = Some a \<and>
           (\<exists>f t. fcfs_run (Some a) (int (length bursts_5_3_8)) = (Some f, t) \<and>
                  length f = length bursts_5_3_8 \<and>
                  (\<forall>k<length bursts_5_3_8.
                      burst_left (f ! k) =
                        (if 0 \<le>s bursts_5_3_8 ! k then 0 else bursts_5_3_8 ! k))) \<and>
           (0 <s (4 :: c_int) \<longrightarrow>
              (\<exists>r t. rr_run (Some a) (int (length bursts_5_3_8)) 4 = Some (Some r, t) \<and>
                     length r = length bursts_5_3_8 \<and>
                     (\<forall>k<length bursts_5_3_8.
                         burst_left (r ! k) =
                           (if 0 \<le>s bursts_5_3_8 ! k then 0 else bursts_5_3_8 ! k))))"
  by (rule runs_finish_every_process) (simp add: bursts_5_3_8_def)

theorem runs_finish_every_process_counterexample:
  "fcfs_run (init_procs (Some [- 1]) 1) 1 = (Some table_neg, 0) \<and>
   rr_run (init_procs (Some [- 1]) 1) 1 1 = Some (Some table_neg, 0) \<and>
   burst_left (table_neg ! 0) \<noteq> 0"
  by code_simp

text \<open>
  Claim C2, as the code has it. For every non-empty burst sequence, \<^verbatim>\<open>fcfs_run\<close> and
  \<^verbatim>\<open>rr_run\<close> (with \<open>quantum > 0\<close>) each return the sum of the positive input bursts,
  added up in C \<^verbatim>\<open>int\<close> arithmetic. When no input burst is negative this is the sum of
  all input bursts, and when the mathematical sum is below \<open>2^31\<close> it is that
  mathematical sum. The claim says the sum of all input bursts for every sequence; the
  counterexample is the burst sequence \<open>[-3, 5]\<close>, where both return 5 and the sum is 2.
\<close>

theorem runs_return_time:
  assumes "bs \<noteq> []"
  shows "snd (fcfs_run (init_procs (Some bs) (int (length bs))) (int (length bs))) =
           (\<Sum>b\<leftarrow>bs. pos_burst b) \<and>
         (0 <s quantum \<longrightarrow>
            map_option snd (rr_run (init_procs (Some bs) (int (length bs))) (int (length bs)) quantum) =
              Some (\<Sum>b\<leftarrow>bs. pos_burst b)) \<and>
         ((\<forall>b\<in>set bs. 0 \<le>s b) \<longrightarrow> (\<Sum>b\<leftarrow>bs. pos_burst b) = sum_list bs) \<and>
         ((\<Sum>b\<leftarrow>bs. max 0 (sint b)) < 2 ^ 31 \<longrightarrow>
            sint (\<Sum>b\<leftarrow>bs. pos_burst b) = (\<Sum>b\<leftarrow>bs. max 0 (sint b)))"
proof -
  from fresh_runs [OF assms, of quantum] obtain a f r where
    a: "init_procs (Some bs) (int (length bs)) = Some a" and
    f: "fcfs_run (Some a) (int (length bs)) = (Some f, \<Sum>b\<leftarrow>bs. pos_burst b)" and
    r: "0 <s quantum \<longrightarrow>
              rr_run (Some a) (int (length bs)) quantum = Some (Some r, \<Sum>b\<leftarrow>bs. pos_burst b) \<and>
              length r = length bs \<and>
              (\<forall>k<length bs.
                  pid (r ! k) = pid (a ! k) \<and>
                  burst_left (r ! k) = (if 0 <s bs ! k then 0 else bs ! k) \<and>
                  (\<not> 0 <s bs ! k \<longrightarrow> r ! k = a ! k))"
    by blast
  have 1: "snd (fcfs_run (init_procs (Some bs) (int (length bs))) (int (length bs))) =
           (\<Sum>b\<leftarrow>bs. pos_burst b)"
    by (simp add: a f)
  have 2: "0 <s quantum \<longrightarrow>
            map_option snd (rr_run (init_procs (Some bs) (int (length bs))) (int (length bs)) quantum) =
              Some (\<Sum>b\<leftarrow>bs. pos_burst b)"
    using r by (simp add: a)
  have 3: "(\<forall>b\<in>set bs. 0 \<le>s b) \<longrightarrow> (\<Sum>b\<leftarrow>bs. pos_burst b) = sum_list bs"
  proof
    assume "\<forall>b\<in>set bs. 0 \<le>s b"
    then have "map pos_burst bs = bs"
      by (simp add: map_idI pos_burst_nonneg)
    then show "(\<Sum>b\<leftarrow>bs. pos_burst b) = sum_list bs"
      by simp
  qed
  have 4: "(\<Sum>b\<leftarrow>bs. max 0 (sint b)) < 2 ^ 31 \<longrightarrow>
            sint (\<Sum>b\<leftarrow>bs. pos_burst b) = (\<Sum>b\<leftarrow>bs. max 0 (sint b))"
    using sint_sum_pos_burst [of "{..<length bs}" "\<lambda>k. bs ! k"]
    by (simp add: sum_list_map_nth)
  show ?thesis
    by (intro conjI 1 2 3 4)
qed

theorem runs_return_time_witness:
  "snd (fcfs_run (init_procs (Some bursts_5_3_8) 3) 3) = 16 \<and>
   map_option snd (rr_run (init_procs (Some bursts_5_3_8) 3) 3 4) = Some 16 \<and>
   (\<Sum>b\<leftarrow>bursts_5_3_8. pos_burst b) = sum_list bursts_5_3_8 \<and>
   sint (\<Sum>b\<leftarrow>bursts_5_3_8. pos_burst b) = 16"
  using runs_return_time [of bursts_5_3_8 4]
  by (simp add: bursts_5_3_8_def pos_burst_def word_sless_alt word_sle_eq)

theorem runs_return_time_counterexample:
  "snd (fcfs_run (init_procs (Some [- 3, 5]) 2) 2) = 5 \<and>
   map_option snd (rr_run (init_procs (Some [- 3, 5]) 2) 2 2) = Some 5 \<and>
   sum_list [- 3, 5 :: c_int] \<noteq> 5"
  by code_simp

text \<open>
  Claim C3, as the code has it. After \<^verbatim>\<open>fcfs_run\<close> on a freshly constructed table, the
  final wait of a process \<open>i\<close> whose burst is positive equals the sum of the positive
  bursts of the processes with index \<open>< i\<close> (in C \<^verbatim>\<open>int\<close> arithmetic, and as a
  mathematical sum when the total of the positive bursts is below \<open>2^31\<close>); the final
  wait of a process whose burst is \<open>\<le> 0\<close> is 0. The claim says the sum for every
  index; the counterexample is the burst sequence \<open>[5, 0]\<close>, where process 1 ends with
  wait 0 and not 5.
\<close>

theorem fcfs_wait_times:
  assumes "bs \<noteq> []"
  shows "\<exists>a f t.
           init_procs (Some bs) (int (length bs)) = Some a \<and>
           fcfs_run (Some a) (int (length bs)) = (Some f, t) \<and>
           length f = length bs \<and>
           (\<forall>i<length bs.
               wait (f ! i) =
                 (if 0 <s bs ! i then (\<Sum>j = 0..<i. pos_burst (bs ! j)) else 0)) \<and>
           ((\<Sum>b\<leftarrow>bs. max 0 (sint b)) < 2 ^ 31 \<longrightarrow>
              (\<forall>i<length bs.
                  sint (wait (f ! i)) =
                    (if 0 < sint (bs ! i) then (\<Sum>j = 0..<i. max 0 (sint (bs ! j))) else 0)))"
proof -
  from fresh_runs [OF assms, of 0] obtain a f where
    a: "init_procs (Some bs) (int (length bs)) = Some a" and
    na: "\<forall>k<length bs. a ! k = \<lparr>pid = word_of_int (int k), burst_left = bs ! k, wait = 0\<rparr>" and
    f: "fcfs_run (Some a) (int (length bs)) = (Some f, \<Sum>b\<leftarrow>bs. pos_burst b)"
       "length f = length bs" "\<forall>k<length bs. f ! k = fcfs_final a 0 k"
    by blast
  have w: "wait (f ! i) = (if 0 <s bs ! i then (\<Sum>j = 0..<i. pos_burst (bs ! j)) else 0)"
    if i: "i < length bs" for i
  proof -
    have "(\<Sum>j = 0..<i. pos_burst (burst_left (a ! j))) = (\<Sum>j = 0..<i. pos_burst (bs ! j))"
      by (rule sum.cong) (use na i in auto)
    then show ?thesis
      using f(3) na i by (simp add: fcfs_final_def)
  qed
  have ws: "sint (wait (f ! i)) =
              (if 0 < sint (bs ! i) then (\<Sum>j = 0..<i. max 0 (sint (bs ! j))) else 0)"
    if small: "(\<Sum>b\<leftarrow>bs. max 0 (sint b)) < 2 ^ 31" and i: "i < length bs" for i
  proof -
    have "(\<Sum>j = 0..<i. max 0 (sint (bs ! j))) \<le> (\<Sum>j = 0..<length bs. max 0 (sint (bs ! j)))"
      by (rule sum_mono2) (use i in auto)
    also have "\<dots> = (\<Sum>b\<leftarrow>bs. max 0 (sint b))"
      by (simp add: sum_list_map_nth atLeast0LessThan)
    finally have "(\<Sum>j = 0..<i. max 0 (sint (bs ! j))) < 2 ^ 31"
      using small by simp
    then have "sint (\<Sum>j = 0..<i. pos_burst (bs ! j)) = (\<Sum>j = 0..<i. max 0 (sint (bs ! j)))"
      by (intro sint_sum_pos_burst) simp_all
    then show ?thesis
      using w [OF i] by (simp add: word_sless_alt)
  qed
  show ?thesis
    using a f(1,2) w ws by blast
qed

theorem fcfs_wait_times_witness:
  "\<exists>a f t.
     init_procs (Some bursts_5_3_8) (int (length bursts_5_3_8)) = Some a \<and>
     fcfs_run (Some a) (int (length bursts_5_3_8)) = (Some f, t) \<and>
     length f = length bursts_5_3_8 \<and>
     (\<forall>i<length bursts_5_3_8.
         wait (f ! i) =
           (if 0 <s bursts_5_3_8 ! i then (\<Sum>j = 0..<i. pos_burst (bursts_5_3_8 ! j)) else 0)) \<and>
     ((\<Sum>b\<leftarrow>bursts_5_3_8. max 0 (sint b)) < 2 ^ 31 \<longrightarrow>
        (\<forall>i<length bursts_5_3_8.
            sint (wait (f ! i)) =
              (if 0 < sint (bursts_5_3_8 ! i)
               then (\<Sum>j = 0..<i. max 0 (sint (bursts_5_3_8 ! j))) else 0)))"
  by (rule fcfs_wait_times) (simp add: bursts_5_3_8_def)

theorem fcfs_wait_times_counterexample:
  "fcfs_run (init_procs (Some [5, 0]) 2) 2 =
     (Some [\<lparr>pid = 0, burst_left = 0, wait = 0\<rparr>, \<lparr>pid = 1, burst_left = 0, wait = 0\<rparr>], 5) \<and>
   pos_burst 5 \<noteq> 0"
  by code_simp

section \<open>Finished processes\<close>

text \<open>
  Claim C10. On a table of \<open>plen\<close> entries, a PCB whose \<^verbatim>\<open>burst_left\<close> is \<open>\<le> 0\<close> is
  left exactly as it is by \<^verbatim>\<open>run_proc\<close> (whatever the index and the amount), by
  \<^verbatim>\<open>fcfs_run\<close> and by \<^verbatim>\<open>rr_run\<close> (whatever the quantum): its \<^verbatim>\<open>burst_left\<close>, its
  \<^verbatim>\<open>wait\<close> and its \<^verbatim>\<open>pid\<close> are unchanged, so a negative burst stays negative and is
  neither decremented nor clamped to 0.
\<close>

theorem finished_never_mutated:
  assumes "plen = int (length a)" and "k < length a" and "burst_left (a ! k) \<le>s 0"
  shows "(\<exists>a'. run_proc (Some a) plen current amount = Some a' \<and> a' ! k = a ! k) \<and>
         (\<exists>a' t. fcfs_run (Some a) plen = (Some a', t) \<and> a' ! k = a ! k) \<and>
         (\<exists>a' t. rr_run (Some a) plen quantum = Some (Some a', t) \<and> a' ! k = a ! k)"
proof (intro conjI)
  have fin: "\<not> 0 <s burst_left (a ! k)"
    using assms(3) by (simp add: word_sle_eq word_sless_alt)
  show "\<exists>a'. run_proc (Some a) plen current amount = Some a' \<and> a' ! k = a ! k"
  proof (cases "plen \<le> 0 \<or> current < 0 \<or> plen \<le> current \<or> amount \<le>s 0 \<or>
                   burst_left (a ! nat current) \<le>s 0")
    case True
    then have "run_proc_mem a plen current amount = a"
      using run_proc_mem_noop [of plen current amount a]
        run_proc_mem_finished [of a current plen amount]
      by auto
    then show ?thesis
      by (simp add: run_proc_def)
  next
    case False
    then have h: "0 \<le> current" "current < plen" "0 <s burst_left (a ! nat current)" "0 <s amount"
      by (auto simp: word_sle_eq word_sless_alt)
    have "k \<noteq> nat current"
      using h(3) fin by auto
    then have "run_proc_mem a plen current amount ! k = a ! k"
      using run_proc_mem_nth [OF h(1,2) _ h(4,3) assms(2)] fin assms(1) by simp
    then show ?thesis
      by (simp add: run_proc_def)
  qed
  show "\<exists>a' t. fcfs_run (Some a) plen = (Some a', t) \<and> a' ! k = a ! k"
  proof -
    from fcfs_run_result [OF assms(1)] obtain a' where
      "fcfs_run (Some a) plen = (Some a', \<Sum>j = 0..<length a. pos_burst (burst_left (a ! j)))"
      "\<forall>k<length a. a' ! k = fcfs_final a 0 k"
      by blast
    moreover have "fcfs_final a 0 k = a ! k"
      using fin by (simp add: fcfs_final_def)
    ultimately show ?thesis
      using assms(2) by auto
  qed
  show "\<exists>a' t. rr_run (Some a) plen quantum = Some (Some a', t) \<and> a' ! k = a ! k"
  proof (cases "0 <s quantum")
    case True
    from rr_run_result [OF assms(1) True] fin assms(2) show ?thesis
      by blast
  next
    case False
    then have "quantum \<le>s 0"
      by (simp add: word_sle_eq word_sless_alt)
    then show ?thesis
      by (simp add: rr_run_def)
  qed
qed

theorem finished_never_mutated_witness:
  "(\<exists>a'. run_proc (Some table_mixed) 3 0 4 = Some a' \<and> a' ! 1 = table_mixed ! 1) \<and>
   (\<exists>a' t. fcfs_run (Some table_mixed) 3 = (Some a', t) \<and> a' ! 1 = table_mixed ! 1) \<and>
   (\<exists>a' t. rr_run (Some table_mixed) 3 4 = Some (Some a', t) \<and> a' ! 1 = table_mixed ! 1)"
  by (rule finished_never_mutated) (simp_all add: table_mixed_def word_sle_eq)

end
